theory Spec2Isabelle
  imports Main "HOL-Library.AList" "HOL-Library.Monad_Syntax"
begin

section \<open>Python values shared by the modules\<close>

text \<open>
  Exceptions of the Python runtime that the modelled code can raise. A function that can
  raise returns \<open>py_error + 'a\<close>, with \<open>Inl\<close> for the exception.
\<close>

datatype py_error = AttributeError | TypeError | NameError | ValueError | KeyError
  | UnicodeDecodeError | MalformedMessage

text \<open>A \<open>bytes\<close> or \<open>bytearray\<close> object is a list of 8-bit characters.\<close>

type_synonym bytes = "char list"

section \<open>protocol.py: the line framing of SBSProtocol\<close>

definition DELIMITER :: bytes where
  "DELIMITER = [CHR 0x0D, CHR 0x0A]"

text \<open>
  \<open>bytearray.partition(sep)\<close> for a non-empty separator: the part before the first
  occurrence of \<open>sep\<close>, the separator, and the part after it; the whole array and two
  empty arrays when \<open>sep\<close> does not occur.
\<close>

fun partition_bytes :: "bytes \<Rightarrow> bytes \<Rightarrow> bytes \<times> bytes \<times> bytes" where
  "partition_bytes sep [] = ([], [], [])"
| "partition_bytes sep (x # xs) =
     (if take (length sep) (x # xs) = sep
      then ([], sep, drop (length sep) (x # xs))
      else (case partition_bytes sep xs of (m, s, r) \<Rightarrow> (x # m, s, r)))"

text \<open>
  The protocol object: \<open>buf\<close> is \<open>None\<close> until \<open>connection_made\<close> and again after
  \<open>connection_lost\<close>; \<open>on_message_received\<close> records whether a callback is registered.
  The calls of the callback are returned as the list of lines passed to it, in order; the
  callback is taken to return normally.
\<close>

record SBSProtocol =
  on_message_received :: bool
  buf :: "bytes option"

definition SBSProtocol_init :: "bool \<Rightarrow> SBSProtocol" where
  "SBSProtocol_init on_msg_callback =
     \<lparr>on_message_received = on_msg_callback, buf = None\<rparr>"

definition connection_made :: "SBSProtocol \<Rightarrow> SBSProtocol" where
  "connection_made p = p\<lparr>buf := Some []\<rparr>"

definition connection_lost :: "SBSProtocol \<Rightarrow> SBSProtocol" where
  "connection_lost p = p\<lparr>buf := None\<rparr>"

text \<open>
  The \<open>while self.buf\<close> loop of \<open>data_received\<close>, run on the buffer after the new data
  has been appended: the lines dispatched to the callback and the buffer left.
\<close>

function data_loop :: "bool \<Rightarrow> bytes \<Rightarrow> bytes list \<times> bytes" where
  "data_loop cb b =
     (if b = [] then ([], b)
      else (case partition_bytes DELIMITER b of (msg, sep, remainder) \<Rightarrow>
        if sep = [] then ([], b)
        else (case data_loop cb remainder of (ls, b') \<Rightarrow>
          ((if msg \<noteq> [] \<and> cb then [msg] else []) @ ls, b'))))"
  by pat_completeness auto
termination
proof -
  have shorter: "length r < length b"
    if "partition_bytes sep b = (m, s, r)" and "s \<noteq> []" for sep b m s r
    using that
  proof (induction b arbitrary: m)
    case Nil
    then show ?case by simp
  next
    case (Cons x xs)
    show ?case
    proof (cases "take (length sep) (x # xs) = sep")
      case True
      with Cons.prems have "s = sep" "r = drop (length sep) (x # xs)"
        by auto
      with Cons.prems(2) show ?thesis
        by (cases sep) auto
    next
      case False
      obtain m' s' r' where p: "partition_bytes sep xs = (m', s', r')"
        by (cases "partition_bytes sep xs") auto
      with False Cons.prems have "s = s'" "r = r'"
        by simp_all
      with p have "partition_bytes sep xs = (m', s, r)"
        by simp
      from Cons.IH [OF this Cons.prems(2)] show ?thesis
        by simp
    qed
  qed
  show ?thesis
    by (relation "measure (\<lambda>(cb, b). length b)") (auto dest: shorter [OF sym])
qed

declare data_loop.simps [simp del]

definition data_received ::
  "SBSProtocol \<Rightarrow> bytes \<Rightarrow> py_error + (SBSProtocol \<times> bytes list)" where
  "data_received p data =
     (case buf p of
        None \<Rightarrow> Inl AttributeError
      | Some b \<Rightarrow>
          (case data_loop (on_message_received p) (b @ data) of
             (ls, b') \<Rightarrow> Inr (p\<lparr>buf := Some b'\<rparr>, ls)))"

text \<open>Successive calls of \<open>data_received\<close>, one per chunk read from the transport.\<close>

fun feed_chunks :: "SBSProtocol \<Rightarrow> bytes list \<Rightarrow> py_error + (SBSProtocol \<times> bytes list)" where
  "feed_chunks p [] = Inr (p, [])"
| "feed_chunks p (c # cs) =
     (case data_received p c of
        Inl e \<Rightarrow> Inl e
      | Inr (p', ls) \<Rightarrow>
          (case feed_chunks p' cs of
             Inl e \<Rightarrow> Inl e
           | Inr (p'', ls') \<Rightarrow> Inr (p'', ls @ ls')))"

section \<open>Dates and numbers\<close>

text \<open>
  A timezone-aware \<open>datetime\<close> is the number of microseconds since the epoch and a
  \<open>timedelta\<close> a number of microseconds, both unbounded; the range limits of the
  \<open>datetime\<close> module are outside the model. Latitudes, longitudes, altitudes and speeds
  are Python floats; the modelled code only reads them from text, stores them, tests them
  against \<open>None\<close> and writes them as text, so a number is taken as the exact decimal
  \<open>mantissa / 10 ^ scale\<close> that its text writes.
\<close>

datatype number = Number (mantissa: int) (scale: nat)

type_synonym datetime = int
type_synonym timedelta = int
type_synonym pyfloat = number

definition timedelta_seconds :: "int \<Rightarrow> timedelta" where
  "timedelta_seconds n = n * 1000000"

definition timedelta_minutes :: "int \<Rightarrow> timedelta" where
  "timedelta_minutes n = n * 60000000"

text \<open>mypy_types.py\<close>

type_synonym PositionType = "pyfloat option \<times> pyfloat option"
type_synonym HistoryPointType =
  "datetime \<times> pyfloat option \<times> pyfloat option \<times> pyfloat option"

section \<open>collections.deque with a maximum length\<close>

text \<open>
  \<open>collections.deque(maxlen=n)\<close>: \<open>maxlen=None\<close> is unbounded, a negative \<open>maxlen\<close>
  raises \<open>ValueError\<close>. \<open>append\<close> adds on the right, and once the deque holds more
  than \<open>maxlen\<close> items the leftmost one is dropped; so a deque of \<open>maxlen\<close> 0 stays
  empty.
\<close>

record 'a deque =
  maxlen :: "nat option"
  items :: "'a list"

definition deque_init :: "int option \<Rightarrow> py_error + 'a deque" where
  "deque_init n =
     (case n of
        None \<Rightarrow> Inr \<lparr>maxlen = None, items = []\<rparr>
      | Some k \<Rightarrow>
          if k < 0 then Inl ValueError
          else Inr \<lparr>maxlen = Some (nat k), items = []\<rparr>)"

definition deque_append :: "'a deque \<Rightarrow> 'a \<Rightarrow> 'a deque" where
  "deque_append d x =
     (let ys = items d @ [x]
      in case maxlen d of
           None \<Rightarrow> d\<lparr>items := ys\<rparr>
         | Some n \<Rightarrow> if n < length ys then d\<lparr>items := tl ys\<rparr> else d\<lparr>items := ys\<rparr>)"

section \<open>aircraft.py\<close>

record Aircraft =
  icao :: string
  callsign :: "string option"
  last_seen :: "datetime option"
  altitude :: "pyfloat option"
  latitude :: "pyfloat option"
  longitude :: "pyfloat option"
  ground_speed :: "pyfloat option"
  track :: "pyfloat option"
  vertical_rate :: "pyfloat option"
  msg_count :: int
  origin :: "PositionType option"
  details :: "(string \<times> string) list"
  history_interval :: "timedelta option"
  history :: "HistoryPointType deque"

text \<open>
  \<open>Aircraft.__init__(hex_ident, history_size=50, history_interval=5)\<close>. The interval is
  kept only when the argument is truthy, that is neither \<open>None\<close> nor 0.
\<close>

definition Aircraft_init :: "string \<Rightarrow> int \<Rightarrow> int option \<Rightarrow> py_error + Aircraft" where
  "Aircraft_init hex_ident history_size history_interval' =
     (case deque_init (Some history_size) of
        Inl e \<Rightarrow> Inl e
      | Inr h \<Rightarrow>
          Inr \<lparr>icao = hex_ident, callsign = None, last_seen = None, altitude = None,
               latitude = None, longitude = None, ground_speed = None, track = None,
               vertical_rate = None, msg_count = 0, origin = None, details = [],
               history_interval =
                 (case history_interval' of
                    None \<Rightarrow> None
                  | Some i \<Rightarrow> if i \<noteq> 0 then Some (timedelta_seconds i) else None),
               history = h\<rparr>)"

definition position :: "Aircraft \<Rightarrow> PositionType" where
  "position ac = (latitude ac, longitude ac)"

text \<open>
  The \<open>distance\<close> property. \<open>None not in self.position\<close> is evaluated first; only when
  it holds is \<open>None not in self.origin\<close> evaluated, which raises \<open>TypeError\<close> when
  \<open>origin\<close> is \<open>None\<close> (the value \<open>__init__\<close> gives it). When both tests hold the
  body calls \<open>haversine_distance\<close>, a name that aircraft.py neither defines nor imports
  (it lives in utils.py), so the call raises \<open>NameError\<close>.
\<close>

definition distance :: "Aircraft \<Rightarrow> py_error + pyfloat option" where
  "distance ac =
     (if fst (position ac) \<noteq> None \<and> snd (position ac) \<noteq> None
      then (case origin ac of
              None \<Rightarrow> Inl TypeError
            | Some (olat, olon) \<Rightarrow>
                if olat \<noteq> None \<and> olon \<noteq> None then Inl NameError else Inr None)
      else Inr None)"

definition update_ident :: "Aircraft \<Rightarrow> string option \<Rightarrow> datetime \<Rightarrow> Aircraft" where
  "update_ident ac callsign' timestamp =
     ac\<lparr>last_seen := Some timestamp, callsign := callsign'\<rparr>"

definition update_motion ::
  "Aircraft \<Rightarrow> pyfloat option \<Rightarrow> pyfloat option \<Rightarrow> pyfloat option \<Rightarrow> datetime \<Rightarrow> Aircraft" where
  "update_motion ac ground_speed' track' vertical_rate' timestamp =
     ac\<lparr>ground_speed := ground_speed', track := track', vertical_rate := vertical_rate',
        last_seen := Some timestamp\<rparr>"

text \<open>
  \<open>update_position\<close>: the live fields are always set; the sample is appended when the
  history is empty, when no interval is configured, or when the timestamp is later than
  the last sample's by more than the interval.
\<close>

definition update_position ::
  "Aircraft \<Rightarrow> pyfloat option \<Rightarrow> pyfloat option \<Rightarrow> pyfloat option \<Rightarrow> datetime \<Rightarrow> Aircraft" where
  "update_position ac alt lat lon timestamp =
     (let ac1 = ac\<lparr>last_seen := Some timestamp, altitude := alt, latitude := lat,
                    longitude := lon\<rparr>
      in if items (history ac1) \<noteq> []
         then (case history_interval ac1 of
                 Some interval \<Rightarrow>
                   (case last (items (history ac1)) of
                      (timestamp', others) \<Rightarrow>
                        if timestamp > timestamp' + interval
                        then ac1\<lparr>history := deque_append (history ac1) (timestamp, lat, lon, alt)\<rparr>
                        else ac1)
               | None \<Rightarrow>
                   ac1\<lparr>history := deque_append (history ac1) (timestamp, lat, lon, alt)\<rparr>)
         else ac1\<lparr>history := deque_append (history ac1) (timestamp, lat, lon, alt)\<rparr>)"

definition update_altitude :: "Aircraft \<Rightarrow> pyfloat option \<Rightarrow> datetime \<Rightarrow> Aircraft" where
  "update_altitude ac alt timestamp = ac\<lparr>last_seen := Some timestamp, altitude := alt\<rparr>"

definition path :: "Aircraft \<Rightarrow> HistoryPointType list" where
  "path ac = items (history ac)"

section \<open>message.py: the message record\<close>

text \<open>
  Modelled from the spec: message.py is not among the sources, so the enumerations and
  the \<open>SBSMessage\<close> record are taken from the spec's data model (section 3). Of the
  transmission types, numbered 1 to 8, only the six that the session tests are given, with
  the numbers of the BaseStation format that the spec's list follows: 1 identification,
  2 surface position, 3 airborne position, 4 airborne velocity, 5 surveillance altitude,
  7 air-to-air.
\<close>

datatype MessageType = Transmission | Status | Identification | Click | New | Remove

definition ES_IDENT_AND_CATEGORY :: int where "ES_IDENT_AND_CATEGORY = 1"
definition ES_SURFACE_POS :: int where "ES_SURFACE_POS = 2"
definition ES_AIRBORNE_POS :: int where "ES_AIRBORNE_POS = 3"
definition ES_AIRBORNE_VEL :: int where "ES_AIRBORNE_VEL = 4"
definition SURVEILLANCE_ALT :: int where "SURVEILLANCE_ALT = 5"
definition AIR_TO_AIR :: int where "AIR_TO_AIR = 7"

text \<open>A date is year, month, day; a time of day is hour, minute, second, microsecond.\<close>

type_synonym date = "nat \<times> nat \<times> nat"
type_synonym time = "nat \<times> nat \<times> nat \<times> nat"

record SBSMessage =
  message_type :: MessageType
  transmission_type :: "int option"
  session_id :: int
  aircraft_id :: int
  hex_ident :: string
  flight_id :: int
  generated_date :: date
  generated_time :: time
  logged_date :: date
  logged_time :: time
  callsign :: "string option"
  altitude :: "pyfloat option"
  ground_speed :: "pyfloat option"
  track :: "pyfloat option"
  lat :: "pyfloat option"
  lon :: "pyfloat option"
  vertical_rate :: "pyfloat option"
  squawk :: "string option"
  alert :: "bool option"
  emergency :: "bool option"
  spi :: "bool option"
  is_on_ground :: "bool option"

section \<open>message.py: the codec\<close>

text \<open>
  Modelled from the spec: \<open>message.fromString\<close> and \<open>message.toString\<close> are called by
  the sources and the tests, but message.py is not among the sources. The codec below is
  built from the spec's sections 3, 4.2 and 8: one comma-separated line of 22 columns, in
  the order of the data model and of the example line, an empty column for an absent
  optional field, \<open>1\<close> and \<open>0\<close> for booleans, exact decimal text for numbers, dates
  written \<open>2017/03/25\<close> and times \<open>10:41:45.365\<close>. Where the spec leaves a choice open
  the model takes the plainest one: the one layout the spec shows serves every message
  type; a number is an optional minus sign, digits and an optional fraction; a time is
  written with its six digits of microseconds; the callsign is trimmed of spaces before
  it is tested for being empty; the transmission type is required of a transmission and
  optional otherwise; an optional column that is not empty and does not convert makes the
  line malformed, as a required one does; a line may carry its trailing delimiter, as
  the lines of tests/test_message.py do.
\<close>

text \<open>Modelled from the spec: decimal digits, the text of the integer fields.\<close>

definition digit_val :: "char \<Rightarrow> nat option" where
  "digit_val c =
     (let k = (of_char c :: nat) in if 48 \<le> k \<and> k \<le> 57 then Some (k - 48) else None)"

definition digit_char :: "nat \<Rightarrow> char" where
  "digit_char d = char_of (48 + d)"

fun nat_of_digits :: "string \<Rightarrow> nat \<Rightarrow> nat option" where
  "nat_of_digits [] acc = Some acc"
| "nat_of_digits (c # cs) acc =
     (case digit_val c of None \<Rightarrow> None | Some d \<Rightarrow> nat_of_digits cs (10 * acc + d))"

definition parse_nat :: "string \<Rightarrow> nat option" where
  "parse_nat s = (if s = [] then None else nat_of_digits s 0)"

function show_nat :: "nat \<Rightarrow> string" where
  "show_nat n = (if n < 10 then [digit_char n] else show_nat (n div 10) @ [digit_char (n mod 10)])"
  by pat_completeness auto
termination
  by (relation "measure id") auto

declare show_nat.simps [simp del]

text \<open>Modelled from the spec: zero padding of the date and time components.\<close>

definition zfill :: "nat \<Rightarrow> string \<Rightarrow> string" where
  "zfill k s = replicate (k - length s) (CHR ''0'') @ s"

text \<open>
  Modelled from the spec: \<open>str.split\<close> and \<open>str.join\<close> on one separator character, and
  the trimming of spaces.
\<close>

fun split_on :: "char \<Rightarrow> string \<Rightarrow> string list" where
  "split_on c [] = [[]]"
| "split_on c (x # xs) =
     (if x = c then [] # split_on c xs
      else (case split_on c xs of [] \<Rightarrow> [[x]] | y # ys \<Rightarrow> (x # y) # ys))"

fun join_on :: "char \<Rightarrow> string list \<Rightarrow> string" where
  "join_on c [] = []"
| "join_on c [s] = s"
| "join_on c (s # t # ss) = s @ c # join_on c (t # ss)"

definition strip :: "string \<Rightarrow> string" where
  "strip s = rev (dropWhile (\<lambda>c. c = CHR '' '') (rev (dropWhile (\<lambda>c. c = CHR '' '') s)))"

text \<open>
  Modelled from the spec: the coercion rules of the columns (integer, exact decimal
  number, boolean, date, time of day), each with the text that \<open>toString\<close> writes.
\<close>

definition parse_int :: "string \<Rightarrow> int option" where
  "parse_int s =
     (case s of
        [] \<Rightarrow> None
      | c # ds \<Rightarrow>
          if c = CHR ''-'' then map_option (\<lambda>n. - int n) (parse_nat ds)
          else map_option int (parse_nat s))"

definition show_int :: "int \<Rightarrow> string" where
  "show_int i = (if i < 0 then CHR ''-'' # show_nat (nat (- i)) else show_nat (nat i))"

definition parse_unsigned :: "string \<Rightarrow> (nat \<times> nat) option" where
  "parse_unsigned s =
     (case split_on (CHR ''.'') s of
        [ip] \<Rightarrow> map_option (\<lambda>a. (a, 0)) (parse_nat ip)
      | [ip, fp] \<Rightarrow>
          (case (parse_nat ip, parse_nat fp) of
             (Some a, Some b) \<Rightarrow> Some (a * 10 ^ length fp + b, length fp)
           | _ \<Rightarrow> None)
      | _ \<Rightarrow> None)"

definition parse_number :: "string \<Rightarrow> number option" where
  "parse_number s =
     (case s of
        [] \<Rightarrow> None
      | c # ds \<Rightarrow>
          if c = CHR ''-''
          then map_option (\<lambda>(n, k). Number (- int n) k) (parse_unsigned ds)
          else map_option (\<lambda>(n, k). Number (int n) k) (parse_unsigned s))"

definition show_unsigned :: "nat \<Rightarrow> nat \<Rightarrow> string" where
  "show_unsigned n k =
     (if k = 0 then show_nat n
      else (let ds = zfill (k + 1) (show_nat n)
            in take (length ds - k) ds @ CHR ''.'' # drop (length ds - k) ds))"

definition show_number :: "number \<Rightarrow> string" where
  "show_number x =
     (if mantissa x < 0 then CHR ''-'' # show_unsigned (nat (- mantissa x)) (scale x)
      else show_unsigned (nat (mantissa x)) (scale x))"

definition parse_bool :: "string \<Rightarrow> bool option" where
  "parse_bool s = (if s = ''1'' then Some True else if s = ''0'' then Some False else None)"

definition show_bool :: "bool \<Rightarrow> string" where
  "show_bool b = (if b then ''1'' else ''0'')"

definition parse_date :: "string \<Rightarrow> date option" where
  "parse_date s =
     (case split_on (CHR ''/'') s of
        [y, m, d] \<Rightarrow>
          (case (parse_nat y, parse_nat m, parse_nat d) of
             (Some y', Some m', Some d') \<Rightarrow>
               if 1 \<le> m' \<and> m' \<le> 12 \<and> 1 \<le> d' \<and> d' \<le> 31 then Some (y', m', d') else None
           | _ \<Rightarrow> None)
      | _ \<Rightarrow> None)"

definition show_date :: "date \<Rightarrow> string" where
  "show_date dt =
     (case dt of (y, m, d) \<Rightarrow>
        zfill 4 (show_nat y) @ CHR ''/'' # zfill 2 (show_nat m) @ CHR ''/'' # zfill 2 (show_nat d))"

definition parse_seconds :: "string \<Rightarrow> (nat \<times> nat) option" where
  "parse_seconds s =
     (case split_on (CHR ''.'') s of
        [sec] \<Rightarrow> map_option (\<lambda>a. (a, 0)) (parse_nat sec)
      | [sec, frac] \<Rightarrow>
          if length frac \<le> 6
          then (case (parse_nat sec, parse_nat (frac @ replicate (6 - length frac) (CHR ''0''))) of
                  (Some a, Some b) \<Rightarrow> if frac = [] then None else Some (a, b)
                | _ \<Rightarrow> None)
          else None
      | _ \<Rightarrow> None)"

definition parse_time :: "string \<Rightarrow> time option" where
  "parse_time s =
     (case split_on (CHR '':'') s of
        [h, m, sf] \<Rightarrow>
          (case (parse_nat h, parse_nat m, parse_seconds sf) of
             (Some h', Some m', Some (s', us)) \<Rightarrow>
               if h' < 24 \<and> m' < 60 \<and> s' < 60 then Some (h', m', s', us) else None
           | _ \<Rightarrow> None)
      | _ \<Rightarrow> None)"

definition show_time :: "time \<Rightarrow> string" where
  "show_time t =
     (case t of (h, m, s, us) \<Rightarrow>
        zfill 2 (show_nat h) @ CHR '':'' # zfill 2 (show_nat m) @ CHR '':'' #
        zfill 2 (show_nat s) @ CHR ''.'' # zfill 6 (show_nat us))"

text \<open>Modelled from the spec: the type codes of the first column.\<close>

definition message_type_of :: "string \<Rightarrow> MessageType option" where
  "message_type_of code =
     (if code = ''MSG'' then Some Transmission
      else if code = ''STA'' then Some Status
      else if code = ''ID'' then Some Identification
      else if code = ''CLK'' then Some Click
      else if code = ''AIR'' then Some New
      else if code = ''SEL'' then Some Remove
      else None)"

fun type_code :: "MessageType \<Rightarrow> string" where
  "type_code Transmission = ''MSG''"
| "type_code Status = ''STA''"
| "type_code Identification = ''ID''"
| "type_code Click = ''CLK''"
| "type_code New = ''AIR''"
| "type_code Remove = ''SEL''"

text \<open>
  Modelled from the spec: an optional column is empty for \<open>None\<close>; a line may end with
  the delimiter.
\<close>

definition optional :: "(string \<Rightarrow> 'a option) \<Rightarrow> string \<Rightarrow> 'a option option" where
  "optional conv s = (if s = [] then Some None else map_option Some (conv s))"

definition show_optional :: "('a \<Rightarrow> string) \<Rightarrow> 'a option \<Rightarrow> string" where
  "show_optional to_text v = (case v of None \<Rightarrow> [] | Some x \<Rightarrow> to_text x)"

definition rstrip_delimiter :: "string \<Rightarrow> string" where
  "rstrip_delimiter line =
     (if length DELIMITER \<le> length line \<and>
         drop (length line - length DELIMITER) line = DELIMITER
      then take (length line - length DELIMITER) line else line)"

text \<open>
  Modelled from the spec: the field layout, column by column; a wrong number of columns,
  an unknown type code or a column that does not convert makes the line malformed.
\<close>

definition parse_fields :: "string list \<Rightarrow> SBSMessage option" where
  "parse_fields fs =
     (case fs of
        [c0, c1, c2, c3, c4, c5, c6, c7, c8, c9, c10, c11, c12, c13, c14, c15, c16, c17,
         c18, c19, c20, c21] \<Rightarrow>
          do {
            v0 \<leftarrow> message_type_of c0;
            v1 \<leftarrow> (if v0 = Transmission then map_option Some (parse_int c1)
                   else optional parse_int c1);
            v2 \<leftarrow> parse_int c2;
            v3 \<leftarrow> parse_int c3;
            v5 \<leftarrow> parse_int c5;
            v6 \<leftarrow> parse_date c6;
            v7 \<leftarrow> parse_time c7;
            v8 \<leftarrow> parse_date c8;
            v9 \<leftarrow> parse_time c9;
            v10 \<leftarrow> optional Some (strip c10);
            v11 \<leftarrow> optional parse_number c11;
            v12 \<leftarrow> optional parse_number c12;
            v13 \<leftarrow> optional parse_number c13;
            v14 \<leftarrow> optional parse_number c14;
            v15 \<leftarrow> optional parse_number c15;
            v16 \<leftarrow> optional parse_number c16;
            v17 \<leftarrow> optional Some c17;
            v18 \<leftarrow> optional parse_bool c18;
            v19 \<leftarrow> optional parse_bool c19;
            v20 \<leftarrow> optional parse_bool c20;
            v21 \<leftarrow> optional parse_bool c21;
            Some \<lparr>message_type = v0, transmission_type = v1, session_id = v2,
              aircraft_id = v3, hex_ident = c4, flight_id = v5, generated_date = v6,
              generated_time = v7, logged_date = v8, logged_time = v9, callsign = v10,
              altitude = v11, ground_speed = v12, track = v13, lat = v14, lon = v15,
              vertical_rate = v16, squawk = v17, alert = v18, emergency = v19, spi = v20,
              is_on_ground = v21\<rparr>
          }
      | _ \<Rightarrow> None)"

definition fromString :: "string \<Rightarrow> py_error + SBSMessage" where
  "fromString line =
     (case parse_fields (split_on (CHR '','') (rstrip_delimiter line)) of
        None \<Rightarrow> Inl MalformedMessage
      | Some m \<Rightarrow> Inr m)"

text \<open>Modelled from the spec: the columns that \<open>toString\<close> writes, in the same layout.\<close>

definition message_fields :: "SBSMessage \<Rightarrow> string list" where
  "message_fields m =
     [type_code (message_type m), show_optional show_int (transmission_type m),
      show_int (session_id m), show_int (aircraft_id m), hex_ident m,
      show_int (flight_id m), show_date (generated_date m), show_time (generated_time m),
      show_date (logged_date m), show_time (logged_time m),
      show_optional (\<lambda>s. s) (SBSMessage.callsign m),
      show_optional show_number (SBSMessage.altitude m),
      show_optional show_number (SBSMessage.ground_speed m),
      show_optional show_number (SBSMessage.track m),
      show_optional show_number (lat m), show_optional show_number (lon m),
      show_optional show_number (SBSMessage.vertical_rate m),
      show_optional (\<lambda>s. s) (squawk m), show_optional show_bool (alert m),
      show_optional show_bool (emergency m), show_optional show_bool (spi m),
      show_optional show_bool (is_on_ground m)]"

definition toString :: "SBSMessage \<Rightarrow> string" where
  "toString m = join_on (CHR '','') (message_fields m)"

section \<open>session.py\<close>

text \<open>
  The aircraft dict is an association list in insertion order with distinct keys:
  \<open>map_of\<close> looks a key up, \<open>AList.update\<close> assigns (in place for a key that is
  present, at the end for a new one). The archive handler is the list of records passed
  to its \<open>emit\<close>, which catches its own errors.
\<close>

type_synonym aircraft_dict = "(string \<times> Aircraft) list"

record Session =
  origin :: "PositionType option"
  aircraft :: aircraft_dict
  expiry_threshold :: timedelta
  archiving_enabled :: bool
  logfile :: "string list option"

definition emit :: "string list option \<Rightarrow> string \<Rightarrow> py_error + string list option" where
  "emit lf r = (case lf of None \<Rightarrow> Inl AttributeError | Some rs \<Rightarrow> Inr (Some (rs @ [r])))"

text \<open>The branch of \<open>on_sbs_message\<close> on the transmission type, applied to the record.\<close>

definition apply_transmission :: "Aircraft \<Rightarrow> SBSMessage \<Rightarrow> datetime \<Rightarrow> Aircraft" where
  "apply_transmission ac msg now =
     (if transmission_type msg = Some ES_IDENT_AND_CATEGORY
      then (if Aircraft.callsign ac \<noteq> SBSMessage.callsign msg
            then update_ident ac (SBSMessage.callsign msg) now else ac)
      else if transmission_type msg \<in> set [Some ES_SURFACE_POS, Some ES_AIRBORNE_POS]
      then update_position ac (SBSMessage.altitude msg) (lat msg) (lon msg) now
      else if transmission_type msg = Some ES_AIRBORNE_VEL
      then update_motion ac (SBSMessage.ground_speed msg) (SBSMessage.track msg)
             (SBSMessage.vertical_rate msg) now
      else if transmission_type msg \<in> set [Some AIR_TO_AIR, Some SURVEILLANCE_ALT]
      then update_altitude ac (SBSMessage.altitude msg) now
      else ac)"

text \<open>
  \<open>Session.on_sbs_message\<close>. The parser \<open>message.fromString\<close> is a parameter; \<open>now\<close> is
  the clock reading taken on entry. An exception of the parser is not caught here.
\<close>

definition on_sbs_message ::
  "(string \<Rightarrow> py_error + SBSMessage) \<Rightarrow> datetime \<Rightarrow> Session \<Rightarrow> string \<Rightarrow> py_error + Session" where
  "on_sbs_message message_fromString now s msg_str =
     (case message_fromString msg_str of
        Inl e \<Rightarrow> Inl e
      | Inr msg \<Rightarrow>
          if hex_ident msg = ''000000'' then Inr s
          else if message_type msg = Transmission then
            (case (if archiving_enabled s then emit (logfile s) msg_str else Inr (logfile s)) of
               Inl e \<Rightarrow> Inl e
             | Inr lf \<Rightarrow>
                 (case (case map_of (aircraft s) (hex_ident msg) of
                          Some ac \<Rightarrow> Inr ac
                        | None \<Rightarrow>
                            (case Aircraft_init (hex_ident msg) 50 (Some 5) of
                               Inl e \<Rightarrow> Inl e
                             | Inr ac \<Rightarrow> Inr (ac\<lparr>Aircraft.origin := Session.origin s\<rparr>))) of
                    Inl e \<Rightarrow> Inl e
                  | Inr ac \<Rightarrow>
                      let ac1 = ac\<lparr>last_seen := Some now, msg_count := msg_count ac + 1\<rparr>
                      in Inr (s\<lparr>logfile := lf,
                                aircraft := AList.update (hex_ident msg)
                                  (apply_transmission ac1 msg now) (aircraft s)\<rparr>)))
          else Inr s)"

text \<open>
  \<open>discard_lost_aircraft\<close>: the first loop collects the keys whose age exceeds the
  threshold; \<open>now - aircraft_item.last_seen\<close> raises \<open>TypeError\<close> for a record never
  seen. The second loop deletes the collected keys.
\<close>

fun lost_aircraft :: "datetime \<Rightarrow> timedelta \<Rightarrow> aircraft_dict \<Rightarrow> py_error + string list" where
  "lost_aircraft now threshold [] = Inr []"
| "lost_aircraft now threshold ((icao_id, aircraft_item) # rest) =
     (case last_seen aircraft_item of
        None \<Rightarrow> Inl TypeError
      | Some t \<Rightarrow>
          (case lost_aircraft now threshold rest of
             Inl e \<Rightarrow> Inl e
           | Inr lost \<Rightarrow> Inr (if now - t > threshold then icao_id # lost else lost)))"

definition del_item :: "string \<Rightarrow> aircraft_dict \<Rightarrow> py_error + aircraft_dict" where
  "del_item k d = (if map_of d k = None then Inl KeyError else Inr (AList.delete k d))"

fun del_items :: "string list \<Rightarrow> aircraft_dict \<Rightarrow> py_error + aircraft_dict" where
  "del_items [] d = Inr d"
| "del_items (k # ks) d =
     (case del_item k d of Inl e \<Rightarrow> Inl e | Inr d' \<Rightarrow> del_items ks d')"

definition discard_lost_aircraft ::
  "Session \<Rightarrow> datetime \<Rightarrow> aircraft_dict \<Rightarrow> py_error + aircraft_dict" where
  "discard_lost_aircraft s now d =
     (case lost_aircraft now (expiry_threshold s) d of
        Inl e \<Rightarrow> Inl e
      | Inr lost \<Rightarrow> del_items lost d)"

text \<open>
  \<open>load_aircraft_cache\<close>, with the unpickled cache file as the argument
  \<open>cached_aircraft\<close>: the expired records are discarded from it, and what is left
  replaces the session's dict unless it is empty.
\<close>

definition load_aircraft_cache ::
  "Session \<Rightarrow> datetime \<Rightarrow> aircraft_dict \<Rightarrow> py_error + Session" where
  "load_aircraft_cache s now cached_aircraft =
     (case discard_lost_aircraft s now cached_aircraft of
        Inl e \<Rightarrow> Inl e
      | Inr cached \<Rightarrow> Inr (if cached \<noteq> [] then s\<lparr>aircraft := cached\<rparr> else s))"

text \<open>One round of the \<open>while True\<close> loop of \<open>manage_session\<close>, before it sleeps.\<close>

definition manage_session_round :: "Session \<Rightarrow> datetime \<Rightarrow> py_error + Session" where
  "manage_session_round s now =
     (case discard_lost_aircraft s now (aircraft s) of
        Inl e \<Rightarrow> Inl e
      | Inr d \<Rightarrow> Inr (s\<lparr>aircraft := d\<rparr>))"

text \<open>The messages of a stream, each with the clock reading at its arrival, in order.\<close>

fun on_sbs_messages ::
  "(string \<Rightarrow> py_error + SBSMessage) \<Rightarrow> Session \<Rightarrow> (datetime \<times> string) list \<Rightarrow> py_error + Session" where
  "on_sbs_messages message_fromString s [] = Inr s"
| "on_sbs_messages message_fromString s ((now, msg_str) # rest) =
     (case on_sbs_message message_fromString now s msg_str of
        Inl e \<Rightarrow> Inl e
      | Inr s' \<Rightarrow> on_sbs_messages message_fromString s' rest)"

section \<open>client.py\<close>

text \<open>
  The client's two callbacks (the attributes \<open>_on_raw_message_received\<close> and
  \<open>_on_message_received\<close>, named here after the constructor's arguments) are recorded
  by whether they are registered, and their calls by the lists of arguments passed, in
  order; a callback is taken to return normally. \<open>on_sbs_message_client\<close> is
  \<open>Client._on_sbs_message\<close>; \<open>bytes.decode\<close> and \<open>message.fromString\<close> are its
  parameters.
\<close>

record Client =
  on_raw_msg_callback :: bool
  on_msg_callback :: bool
  archiving_enabled :: bool
  logfile :: "string list option"
  raw_messages_received :: "bytes list"
  messages_received :: "SBSMessage list"

definition on_sbs_message_client ::
  "(bytes \<Rightarrow> py_error + string) \<Rightarrow> (string \<Rightarrow> py_error + SBSMessage) \<Rightarrow>
   Client \<Rightarrow> bytes \<Rightarrow> py_error + Client" where
  "on_sbs_message_client decode message_fromString c msg_data =
     (case decode msg_data of
        Inl e \<Rightarrow> Inl e
      | Inr msg_str \<Rightarrow>
          (case (if Client.archiving_enabled c then emit (Client.logfile c) msg_str
                 else Inr (Client.logfile c)) of
             Inl e \<Rightarrow> Inl e
           | Inr lf \<Rightarrow>
               let c1 = c\<lparr>Client.logfile := lf\<rparr>;
                   c2 = (if on_raw_msg_callback c1
                         then c1\<lparr>raw_messages_received := raw_messages_received c1 @ [msg_data]\<rparr>
                         else c1)
               in if on_msg_callback c2
                  then (case message_fromString msg_str of
                          Inl e \<Rightarrow> Inr c2
                        | Inr msg \<Rightarrow>
                            if hex_ident msg = ''000000'' then Inr c2
                            else Inr (c2\<lparr>messages_received := messages_received c2 @ [msg]\<rparr>))
                  else Inr c2))"

text \<open>The lines that the protocol dispatches to the client, in order.\<close>

fun on_sbs_messages_client ::
  "(bytes \<Rightarrow> py_error + string) \<Rightarrow> (string \<Rightarrow> py_error + SBSMessage) \<Rightarrow>
   Client \<Rightarrow> bytes list \<Rightarrow> py_error + Client" where
  "on_sbs_messages_client decode message_fromString c [] = Inr c"
| "on_sbs_messages_client decode message_fromString c (msg_data # rest) =
     (case on_sbs_message_client decode message_fromString c msg_data of
        Inl e \<Rightarrow> Inl e
      | Inr c' \<Rightarrow> on_sbs_messages_client decode message_fromString c' rest)"

section \<open>Predicates and data used to state the properties\<close>

text \<open>A string of decimal digits.\<close>

definition all_digits :: "string \<Rightarrow> bool" where
  "all_digits s = (\<forall>c \<in> set s. digit_val c \<noteq> None)"

text \<open>The age test of the expiry sweep on one record, and records that have been seen.\<close>

definition age_exceeds :: "datetime \<Rightarrow> timedelta \<Rightarrow> Aircraft \<Rightarrow> bool" where
  "age_exceeds now threshold ac =
     (case last_seen ac of None \<Rightarrow> False | Some t \<Rightarrow> now - t > threshold)"

definition seen :: "aircraft_dict \<Rightarrow> bool" where
  "seen d = (\<forall>(k, ac) \<in> set d. last_seen ac \<noteq> None)"

text \<open>
  The invariant of the session's aircraft dict: its keys are distinct (it is a dict), and
  every record has been seen and counted at least once.
\<close>

definition aircraft_dict_inv :: "aircraft_dict \<Rightarrow> bool" where
  "aircraft_dict_inv d =
     (distinct (map fst d) \<and>
      (\<forall>(k, ac) \<in> set d. last_seen ac \<noteq> None \<and> 1 \<le> msg_count ac))"

definition session_inv :: "Session \<Rightarrow> bool" where
  "session_inv s = aircraft_dict_inv (aircraft s)"

text \<open>A line that parses to a message carrying the invalid all-zero ICAO address.\<close>

definition zero_icao :: "(string \<Rightarrow> py_error + SBSMessage) \<Rightarrow> string \<Rightarrow> bool" where
  "zero_icao message_fromString msg_str =
     (case message_fromString msg_str of Inl e \<Rightarrow> False | Inr msg \<Rightarrow> hex_ident msg = ''000000'')"

text \<open>
  The message of the spec's end-to-end scenario, a parser that knows two lines (\<open>''A''\<close>
  for that message, \<open>''Z''\<close> for the same message with the all-zero address), a session
  and a client as their constructors leave them, and aircraft records as
  \<open>on_sbs_message\<close> leaves them after a first message without position.
\<close>

definition scenario_msg :: SBSMessage where
  "scenario_msg =
     \<lparr>message_type = Transmission, transmission_type = Some 3, session_id = 1,
      aircraft_id = 1, hex_ident = ''7C79B7'', flight_id = 1,
      generated_date = (2017, 3, 25), generated_time = (10, 41, 45, 365000),
      logged_date = (2017, 3, 25), logged_time = (10, 41, 45, 384000),
      callsign = None, altitude = Some (Number 2850 0), ground_speed = None, track = None,
      lat = Some (Number (- 3484658) 5), lon = Some (Number 13867962 5),
      vertical_rate = None, squawk = None, alert = None, emergency = None, spi = None,
      is_on_ground = None\<rparr>"

text \<open>The line of that scenario, without its delimiter.\<close>

definition scenario_line :: string where
  "scenario_line = ''MSG,3,1,1,7C79B7,1,2017/03/25,10:41:45.365,2017/03/25,10:41:45.384,,2850,,,-34.84658,138.67962,,,,,,''"

definition scenario_parser :: "string \<Rightarrow> py_error + SBSMessage" where
  "scenario_parser msg_str =
     (if msg_str = ''Z'' then Inr (scenario_msg\<lparr>hex_ident := ''000000''\<rparr>)
      else if msg_str = ''A'' then Inr scenario_msg
      else Inl MalformedMessage)"

definition scenario_session :: Session where
  "scenario_session =
     \<lparr>Session.origin = None, aircraft = [], expiry_threshold = timedelta_minutes 2,
      Session.archiving_enabled = False, Session.logfile = None\<rparr>"

definition scenario_client :: Client where
  "scenario_client =
     \<lparr>on_raw_msg_callback = False, on_msg_callback = True,
      Client.archiving_enabled = False, Client.logfile = None,
      raw_messages_received = [], messages_received = []\<rparr>"

definition seen_aircraft :: "string \<Rightarrow> datetime \<Rightarrow> Aircraft" where
  "seen_aircraft h t =
     \<lparr>icao = h, callsign = None, last_seen = Some t, altitude = None, latitude = None,
      longitude = None, ground_speed = None, track = None, vertical_rate = None,
      msg_count = 1, origin = None, details = [],
      history_interval = Some (timedelta_seconds 5),
      history = \<lparr>maxlen = Some 50, items = []\<rparr>\<rparr>"

definition scenario_dict :: aircraft_dict where
  "scenario_dict =
     [(''AAAAAA'', seen_aircraft ''AAAAAA'' 0), (''BBBBBB'', seen_aircraft ''BBBBBB'' 100000000)]"

definition tracked_aircraft :: Aircraft where
  "tracked_aircraft =
     (seen_aircraft ''7C79B7'' 1000000)
       \<lparr>Aircraft.altitude := Some (Number 2850 0), latitude := Some (Number (- 3484658) 5),
        longitude := Some (Number 13867962 5),
        history := \<lparr>maxlen = Some 50, items =
          [(1000000, Some (Number (- 3484658) 5), Some (Number 13867962 5), Some (Number 2850 0))]\<rparr>\<rparr>"

section \<open>Properties of the line framing\<close>

text \<open>
  What \<open>partition_bytes\<close> returns when it finds the separator, and that a separator
  found in a buffer is found at the same place after more bytes arrive.
\<close>

lemma partition_bytes_found:
  "partition_bytes sep b = (m, s, r) \<Longrightarrow> s \<noteq> [] \<Longrightarrow> s = sep \<and> b = m @ sep @ r"
proof (induction b arbitrary: m)
  case Nil
  then show ?case by simp
next
  case (Cons x xs)
  show ?case
  proof (cases "take (length sep) (x # xs) = sep")
    case True
    with Cons.prems have "m = []" "s = sep" "r = drop (length sep) (x # xs)"
      by auto
    with True show ?thesis
      by (metis append_Nil append_take_drop_id)
  next
    case False
    obtain m' s' r' where p: "partition_bytes sep xs = (m', s', r')"
      by (cases "partition_bytes sep xs") auto
    with False Cons.prems have eq: "m = x # m'" "s = s'" "r = r'"
      by simp_all
    with p have "partition_bytes sep xs = (m', s, r)"
      by simp
    from Cons.IH [OF this Cons.prems(2)] eq show ?thesis
      by simp
  qed
qed

lemma partition_bytes_shorter:
  "partition_bytes sep b = (m, s, r) \<Longrightarrow> s \<noteq> [] \<Longrightarrow> length r < length b"
  using partition_bytes_found [of sep b m s r] by (cases sep) auto

lemma partition_bytes_append:
  "partition_bytes sep b = (m, s, r) \<Longrightarrow> s \<noteq> [] \<Longrightarrow>
   partition_bytes sep (b @ d) = (m, s, r @ d)"
proof (induction b arbitrary: m)
  case Nil
  then show ?case by simp
next
  case (Cons x xs)
  from partition_bytes_found [OF Cons.prems] have s: "s = sep" and b: "x # xs = m @ sep @ r"
    by simp_all
  show ?case
  proof (cases "take (length sep) (x # xs) = sep")
    case True
    have "length (x # xs) = length m + length sep + length r"
      using arg_cong [OF b, of length] by simp
    then have len: "length sep \<le> length (x # xs)"
      by simp
    from True Cons.prems have "m = []" "r = drop (length sep) (x # xs)"
      by auto
    moreover from True len have "take (length sep) (x # (xs @ d)) = sep"
      by (metis append_Cons take_append diff_is_0_eq take_0 append_Nil2)
    moreover from len have "drop (length sep) (x # (xs @ d)) = drop (length sep) (x # xs) @ d"
      by (metis append_Cons drop_append diff_is_0_eq drop_0)
    ultimately show ?thesis
      using s by simp
  next
    case False
    obtain m' s' r' where p: "partition_bytes sep xs = (m', s', r')"
      by (cases "partition_bytes sep xs") auto
    with False Cons.prems have eq: "m = x # m'" "s = s'" "r = r'"
      by simp_all
    with p have p': "partition_bytes sep xs = (m', s, r)"
      by simp
    from partition_bytes_found [OF p' Cons.prems(2)] have "xs = m' @ sep @ r"
      by simp
    from arg_cong [OF this, of length] have "length sep \<le> length xs"
      by simp
    then have "take (length sep) (x # (xs @ d)) = take (length sep) (x # xs)"
      by (metis append_Cons take_append diff_is_0_eq take_0 append_Nil2 le_SucI length_Cons)
    with False Cons.IH [OF p' Cons.prems(2)] eq show ?thesis
      by simp
  qed
qed

lemma data_loop_append:
  "data_loop cb b = (ls, r) \<Longrightarrow>
   data_loop cb (b @ d) = (ls @ fst (data_loop cb (r @ d)), snd (data_loop cb (r @ d)))"
proof (induction cb b arbitrary: ls rule: data_loop.induct)
  case (1 cb b)
  show ?case
  proof (cases "b = []")
    case True
    with "1.prems" show ?thesis
      by (simp add: data_loop.simps [of cb "[]"])
  next
    case False
    obtain msg sep remainder where p: "partition_bytes DELIMITER b = (msg, sep, remainder)"
      by (cases "partition_bytes DELIMITER b") auto
    show ?thesis
    proof (cases "sep = []")
      case True
      with False p "1.prems" show ?thesis
        by (simp add: data_loop.simps [of cb b])
    next
      case sep: False
      obtain ls0 r0 where l: "data_loop cb remainder = (ls0, r0)"
        by (cases "data_loop cb remainder") auto
      from False p sep l "1.prems"
      have ls: "ls = (if msg \<noteq> [] \<and> cb then [msg] else []) @ ls0" and r: "r = r0"
        by (simp_all add: data_loop.simps [of cb b])
      from l r have "data_loop cb remainder = (ls0, r)" by simp
      from "1.IH" [OF False p [symmetric] refl sep this]
      have ih: "data_loop cb (remainder @ d) =
          (ls0 @ fst (data_loop cb (r @ d)), snd (data_loop cb (r @ d)))" .
      from partition_bytes_append [OF p sep]
      have "partition_bytes DELIMITER (b @ d) = (msg, sep, remainder @ d)" .
      with False sep ih ls show ?thesis
        by (simp add: data_loop.simps [of cb "b @ d"])
    qed
  qed
qed

lemma data_loop_rest:
  "data_loop cb b = (ls, r) \<Longrightarrow> data_loop cb r = ([], r)"
proof (induction cb b arbitrary: ls rule: data_loop.induct)
  case (1 cb b)
  show ?case
  proof (cases "b = []")
    case True
    with "1.prems" show ?thesis
      by (simp add: data_loop.simps [of cb "[]"])
  next
    case False
    obtain msg sep remainder where p: "partition_bytes DELIMITER b = (msg, sep, remainder)"
      by (cases "partition_bytes DELIMITER b") auto
    show ?thesis
    proof (cases "sep = []")
      case True
      with False p "1.prems" have "r = b" "ls = []"
        by (simp_all add: data_loop.simps [of cb b])
      with False p True show ?thesis
        by (simp add: data_loop.simps [of cb b])
    next
      case sep: False
      obtain ls0 r0 where l: "data_loop cb remainder = (ls0, r0)"
        by (cases "data_loop cb remainder") auto
      from False p sep l "1.prems" have r: "r = r0"
        by (simp_all add: data_loop.simps [of cb b])
      from l r have "data_loop cb remainder = (ls0, r)" by simp
      from "1.IH" [OF False p [symmetric] refl sep this] show ?thesis .
    qed
  qed
qed


lemma data_loop_lines_nonempty:
  "data_loop cb b = (ls, r) \<Longrightarrow> [] \<notin> set ls"
proof (induction cb b arbitrary: ls r rule: data_loop.induct)
  case (1 cb b)
  show ?case
  proof (cases "b = []")
    case True
    with "1.prems" show ?thesis
      by (simp add: data_loop.simps [of cb "[]"])
  next
    case False
    obtain msg sep remainder where p: "partition_bytes DELIMITER b = (msg, sep, remainder)"
      by (cases "partition_bytes DELIMITER b") auto
    show ?thesis
    proof (cases "sep = []")
      case True
      with False p "1.prems" show ?thesis
        by (simp add: data_loop.simps [of cb b])
    next
      case sep: False
      obtain ls0 r0 where l: "data_loop cb remainder = (ls0, r0)"
        by (cases "data_loop cb remainder") auto
      from False p sep l "1.prems"
      have ls: "ls = (if msg \<noteq> [] \<and> cb then [msg] else []) @ ls0"
        by (simp_all add: data_loop.simps [of cb b])
      from "1.IH" [OF False p [symmetric] refl sep l] have "[] \<notin> set ls0" .
      with ls show ?thesis
        by auto
    qed
  qed
qed

lemma data_loop_buffer:
  "data_loop cb b = (ls, r) \<Longrightarrow>
   \<exists>pre. b = pre @ r \<and> (pre = [] \<or> (\<exists>q. pre = q @ DELIMITER))"
proof (induction cb b arbitrary: ls rule: data_loop.induct)
  case (1 cb b)
  show ?case
  proof (cases "b = []")
    case True
    with "1.prems" show ?thesis
      by (simp add: data_loop.simps [of cb "[]"])
  next
    case False
    obtain msg sep remainder where p: "partition_bytes DELIMITER b = (msg, sep, remainder)"
      by (cases "partition_bytes DELIMITER b") auto
    show ?thesis
    proof (cases "sep = []")
      case True
      with False p "1.prems" show ?thesis
        by (simp add: data_loop.simps [of cb b])
    next
      case sep: False
      obtain ls0 r0 where l: "data_loop cb remainder = (ls0, r0)"
        by (cases "data_loop cb remainder") auto
      from False p sep l "1.prems" have r: "r = r0"
        by (simp_all add: data_loop.simps [of cb b])
      from l r have "data_loop cb remainder = (ls0, r)" by simp
      from "1.IH" [OF False p [symmetric] refl sep this]
      obtain pre where pre: "remainder = pre @ r" "pre = [] \<or> (\<exists>q. pre = q @ DELIMITER)"
        by blast
      from partition_bytes_found [OF p sep] have b: "b = msg @ DELIMITER @ remainder"
        by simp
      show ?thesis
      proof (cases "pre = []")
        case True
        with b pre have "b = (msg @ DELIMITER) @ r" by simp
        then show ?thesis by blast
      next
        case False
        with pre obtain q where "pre = q @ DELIMITER" by blast
        with b pre have "b = ((msg @ DELIMITER @ q) @ DELIMITER) @ r" by simp
        then show ?thesis by blast
      qed
    qed
  qed
qed

lemma partition_bytes_absent:
  "partition_bytes sep b = (m, [], r) \<Longrightarrow> sep \<noteq> [] \<Longrightarrow> b \<noteq> u @ sep @ v"
proof (induction b arbitrary: m u)
  case Nil
  then show ?case by simp
next
  case (Cons x xs)
  from Cons.prems have nt: "take (length sep) (x # xs) \<noteq> sep"
    by (auto split: if_splits)
  obtain m' s' r' where p: "partition_bytes sep xs = (m', s', r')"
    by (cases "partition_bytes sep xs") auto
  with nt Cons.prems have "partition_bytes sep xs = (m', [], r)"
    by simp
  note ih = Cons.IH [OF this Cons.prems(2)]
  show ?case
  proof
    assume eq: "x # xs = u @ sep @ v"
    show False
    proof (cases u)
      case Nil
      with eq have "take (length sep) (x # xs) = sep" by simp
      with nt show False by simp
    next
      case (Cons y u')
      with eq have "xs = u' @ sep @ v" by simp
      with ih show False by blast
    qed
  qed
qed

lemma data_loop_no_delimiter:
  assumes "data_loop cb b = (ls, r)"
  shows "r \<noteq> u @ DELIMITER @ v"
proof
  assume occ: "r = u @ DELIMITER @ v"
  then have ne: "r \<noteq> []" by (simp add: DELIMITER_def)
  from data_loop_rest [OF assms] have st: "data_loop cb r = ([], r)" .
  obtain msg sep remainder where p: "partition_bytes DELIMITER r = (msg, sep, remainder)"
    by (cases "partition_bytes DELIMITER r") auto
  show False
  proof (cases "sep = []")
    case True
    with p have "partition_bytes DELIMITER r = (msg, [], remainder)" by simp
    moreover have "DELIMITER \<noteq> []"
      by (simp add: DELIMITER_def)
    ultimately have "r \<noteq> u @ DELIMITER @ v"
      by (rule partition_bytes_absent)
    with occ show False by simp
  next
    case False
    obtain ls0 r0 where l: "data_loop cb remainder = (ls0, r0)"
      by (cases "data_loop cb remainder") auto
    from ne p False l st have "r0 = r"
      by (simp add: data_loop.simps [of cb r])
    with l data_loop_buffer [of cb remainder ls0 r] obtain pre where "remainder = pre @ r"
      by blast
    then have "length r \<le> length remainder" by simp
    with partition_bytes_shorter [OF p False] show False by simp
  qed
qed

lemma feed_chunks_concat:
  assumes "buf p = Some b" and "data_loop (on_message_received p) b = ([], b)"
  shows "feed_chunks p chunks = data_received p (concat chunks)"
  using assms
proof (induction chunks arbitrary: p b)
  case Nil
  then show ?case
    by (simp add: data_received_def)
next
  case (Cons c cs)
  let ?cb = "on_message_received p"
  obtain ls1 b1 where l1: "data_loop ?cb (b @ c) = (ls1, b1)"
    by (cases "data_loop ?cb (b @ c)") auto
  define p1 where "p1 = p\<lparr>buf := Some b1\<rparr>"
  from l1 Cons.prems(1) have dr: "data_received p c = Inr (p1, ls1)"
    by (simp add: data_received_def p1_def)
  have b1: "buf p1 = Some b1" and cb1: "on_message_received p1 = ?cb"
    by (simp_all add: p1_def)
  from data_loop_rest [OF l1] cb1 have st: "data_loop (on_message_received p1) b1 = ([], b1)"
    by simp
  from Cons.IH [OF b1 st] have ih: "feed_chunks p1 cs = data_received p1 (concat cs)" .
  from data_loop_append [OF l1, of "concat cs"]
  have app: "data_loop ?cb (b @ c @ concat cs) =
      (ls1 @ fst (data_loop ?cb (b1 @ concat cs)), snd (data_loop ?cb (b1 @ concat cs)))"
    by simp
  have "p1\<lparr>buf := Some x\<rparr> = p\<lparr>buf := Some x\<rparr>" for x
    by (simp add: p1_def)
  with dr ih app Cons.prems(1) b1 cb1 show ?case
    by (simp add: data_received_def split: prod.splits)
qed

lemma feed_chunks_lines_nonempty:
  "feed_chunks p chunks = Inr (p', ls) \<Longrightarrow> [] \<notin> set ls"
proof (induction chunks arbitrary: p p' ls)
  case Nil
  then show ?case by simp
next
  case (Cons c cs)
  from Cons.prems obtain p1 ls1 where dr: "data_received p c = Inr (p1, ls1)"
    by (auto split: sum.splits)
  with Cons.prems obtain ls2 where fc: "feed_chunks p1 cs = Inr (p', ls2)" and ls: "ls = ls1 @ ls2"
    by (auto split: sum.splits)
  from dr have "[] \<notin> set ls1"
    by (auto simp: data_received_def split: option.splits prod.splits
          dest: data_loop_lines_nonempty)
  with Cons.IH [OF fc] ls show ?case
    by simp
qed

text \<open>
  C2. Chunk-boundary independence of the frame decoder: on a connected protocol whose
  buffer holds no complete line (as after \<open>connection_made\<close> and after every
  \<open>data_received\<close>), feeding the chunks one call at a time dispatches the same lines
  in the same order, and leaves the same protocol state, as feeding their concatenation
  in one call. The bytes left in the buffer are the end of the stream after its last
  delimiter: the stream is a part that is empty or ends with the delimiter, followed by
  the buffer, and the buffer contains no delimiter.
\<close>

theorem chunk_boundary_independence:
  assumes "buf p = Some b" and "data_loop (on_message_received p) b = ([], b)"
  shows "feed_chunks p chunks = data_received p (concat chunks) \<and>
         (\<exists>p' ls r. data_received p (concat chunks) = Inr (p', ls) \<and> buf p' = Some r \<and>
            (\<exists>pre. b @ concat chunks = pre @ r \<and> (pre = [] \<or> (\<exists>q. pre = q @ DELIMITER))) \<and>
            (\<forall>u v. r \<noteq> u @ DELIMITER @ v))"
proof
  from assms show "feed_chunks p chunks = data_received p (concat chunks)"
    by (rule feed_chunks_concat)
next
  let ?cb = "on_message_received p"
  obtain ls r where l: "data_loop ?cb (b @ concat chunks) = (ls, r)"
    by (cases "data_loop ?cb (b @ concat chunks)") auto
  with assms(1) have "data_received p (concat chunks) = Inr (p\<lparr>buf := Some r\<rparr>, ls)"
    by (simp add: data_received_def)
  moreover have "buf (p\<lparr>buf := Some r\<rparr>) = Some r"
    by simp
  moreover from data_loop_buffer [OF l]
  have "\<exists>pre. b @ concat chunks = pre @ r \<and> (pre = [] \<or> (\<exists>q. pre = q @ DELIMITER))" .
  moreover from data_loop_no_delimiter [OF l] have "\<forall>u v. r \<noteq> u @ DELIMITER @ v"
    by blast
  ultimately show "\<exists>p' ls r. data_received p (concat chunks) = Inr (p', ls) \<and> buf p' = Some r \<and>
      (\<exists>pre. b @ concat chunks = pre @ r \<and> (pre = [] \<or> (\<exists>q. pre = q @ DELIMITER))) \<and>
      (\<forall>u v. r \<noteq> u @ DELIMITER @ v)"
    by blast
qed

theorem chunk_boundary_independence_witness:
  "buf (connection_made (SBSProtocol_init True)) = Some [] \<and>
   data_loop (on_message_received (connection_made (SBSProtocol_init True))) [] = ([], []) \<and>
   feed_chunks (connection_made (SBSProtocol_init True))
     [[CHR ''A'', CHR ''B'', CHR 0x0D],
      [CHR 0x0A, CHR ''C'', CHR ''D'', CHR 0x0D, CHR 0x0A, CHR 0x0D, CHR 0x0A, CHR ''E'']]
   = Inr (\<lparr>on_message_received = True, buf = Some ''E''\<rparr>, [''AB'', ''CD''])"
proof -
  let ?p = "connection_made (SBSProtocol_init True)"
  let ?chunks = "[[CHR ''A'', CHR ''B'', CHR 0x0D],
      [CHR 0x0A, CHR ''C'', CHR ''D'', CHR 0x0D, CHR 0x0A, CHR 0x0D, CHR 0x0A, CHR ''E'']]"
  have h1: "buf ?p = Some []"
    by (simp add: connection_made_def)
  have h2: "data_loop (on_message_received ?p) [] = ([], [])"
    by (simp add: data_loop.simps [of _ "[]"])
  from chunk_boundary_independence [OF h1 h2, of ?chunks]
  have "feed_chunks ?p ?chunks = data_received ?p (concat ?chunks)"
    by blast
  moreover have "data_received ?p (concat ?chunks) =
      Inr (\<lparr>on_message_received = True, buf = Some ''E''\<rparr>, [''AB'', ''CD''])"
    by code_simp
  ultimately show ?thesis
    using h1 h2 by simp
qed

text \<open>
  C9. Heartbeats are absorbed: whatever chunks are fed to the decoder, no line
  dispatched to the message callback is empty.
\<close>

theorem heartbeat_never_dispatched:
  "feed_chunks p chunks = Inr (p', ls) \<Longrightarrow> [] \<notin> set ls"
  by (rule feed_chunks_lines_nonempty)

theorem heartbeat_never_dispatched_witness:
  "feed_chunks (connection_made (SBSProtocol_init True))
     [[CHR 0x0D, CHR 0x0A], [CHR ''A'', CHR 0x0D, CHR 0x0A, CHR 0x0D], [CHR 0x0A]]
   = Inr (\<lparr>on_message_received = True, buf = Some []\<rparr>, [''A'']) \<and>
   [] \<notin> set [''A'']"
proof -
  have e: "feed_chunks (connection_made (SBSProtocol_init True))
     [[CHR 0x0D, CHR 0x0A], [CHR ''A'', CHR 0x0D, CHR 0x0A, CHR 0x0D], [CHR 0x0A]]
   = Inr (\<lparr>on_message_received = True, buf = Some []\<rparr>, [''A''])"
    by code_simp
  from heartbeat_never_dispatched [OF e] e show ?thesis
    by simp
qed

section \<open>Properties of the aircraft record\<close>

text \<open>
  With a positive capacity the history never grows beyond it, and an append to a full
  history drops the oldest sample.
\<close>

lemma deque_append_bounded:
  assumes "maxlen d = Some n" and "length (items d) \<le> n" and "0 < n"
  shows "maxlen (deque_append d x) = Some n \<and> length (items (deque_append d x)) \<le> n \<and>
         items (deque_append d x) =
           (if length (items d) = n then tl (items d) @ [x] else items d @ [x])"
  using assms by (cases "items d") (auto simp: deque_append_def Let_def)

lemma update_position_history_bounded:
  assumes "maxlen (history ac) = Some n" and "length (items (history ac)) \<le> n" and "0 < n"
  shows "maxlen (history (update_position ac alt la lo timestamp)) = Some n \<and>
         length (items (history (update_position ac alt la lo timestamp))) \<le> n"
  using assms deque_append_bounded [OF assms, of "(timestamp, la, lo, alt)"]
  by (auto simp: update_position_def Let_def split: option.splits prod.splits)

text \<open>
  C4. The docstring of \<open>Aircraft.__init__\<close> says that a history size of 0 disables the
  maximum, but \<open>deque(maxlen=0)\<close> is a deque that holds nothing: an aircraft constructed
  with history size 0 records no sample at all, whatever position update it receives.
\<close>

theorem history_size_zero_records_nothing:
  "\<exists>ac. Aircraft_init hex_ident' 0 interval = Inr ac \<and>
     maxlen (history ac) = Some 0 \<and>
     path (update_position ac alt la lo timestamp) = []"
  by (simp add: Aircraft_init_def deque_init_def update_position_def deque_append_def path_def
      Let_def)

text \<open>
  C5. With interval gating enabled and a non-empty history, a position update whose
  timestamp is not later than the last sample's by more than the interval leaves the
  history as it is and sets the live latitude, longitude, altitude and \<open>last_seen\<close>.
\<close>

theorem update_position_within_interval:
  assumes "items (history ac) \<noteq> []" and "history_interval ac = Some interval"
    and "timestamp \<le> fst (last (items (history ac))) + interval"
  shows "update_position ac alt la lo timestamp =
           ac\<lparr>last_seen := Some timestamp, Aircraft.altitude := alt, latitude := la,
              longitude := lo\<rparr> \<and>
         history (update_position ac alt la lo timestamp) = history ac \<and>
         latitude (update_position ac alt la lo timestamp) = la \<and>
         longitude (update_position ac alt la lo timestamp) = lo \<and>
         Aircraft.altitude (update_position ac alt la lo timestamp) = alt \<and>
         last_seen (update_position ac alt la lo timestamp) = Some timestamp"
proof -
  from assms have "update_position ac alt la lo timestamp =
      ac\<lparr>last_seen := Some timestamp, Aircraft.altitude := alt, latitude := la,
         longitude := lo\<rparr>"
    by (cases "last (items (history ac))") (simp add: update_position_def Let_def)
  then show ?thesis
    by simp
qed

theorem update_position_within_interval_witness:
  "items (history tracked_aircraft) \<noteq> [] \<and>
   history_interval tracked_aircraft = Some 5000000 \<and>
   (4000000::int) \<le> fst (last (items (history tracked_aircraft))) + 5000000 \<and>
   history (update_position tracked_aircraft (Some (Number 2900 0)) (Some (Number (- 3484700) 5))
      (Some (Number 13868000 5)) 4000000) = history tracked_aircraft \<and>
   latitude (update_position tracked_aircraft (Some (Number 2900 0)) (Some (Number (- 3484700) 5))
      (Some (Number 13868000 5)) 4000000) = Some (Number (- 3484700) 5)"
proof -
  have h: "items (history tracked_aircraft) \<noteq> []"
    "history_interval tracked_aircraft = Some 5000000"
    "(4000000::int) \<le> fst (last (items (history tracked_aircraft))) + 5000000"
    by (simp_all add: tracked_aircraft_def seen_aircraft_def timedelta_seconds_def)
  from update_position_within_interval [OF h] h show ?thesis
    by simp
qed

text \<open>
  C8. Reading \<open>distance\<close> on an aircraft whose position is set fails: with
  \<open>TypeError\<close> when the origin is \<open>None\<close>, and with \<open>NameError\<close> when the origin is
  set as well, where the distance should have been computed.
\<close>

theorem distance_raises:
  "distance (ac\<lparr>latitude := Some la, longitude := Some lo, Aircraft.origin := None\<rparr>) =
     Inl TypeError \<and>
   distance (ac\<lparr>latitude := Some la, longitude := Some lo,
       Aircraft.origin := Some (Some ola, Some olo)\<rparr>) = Inl NameError"
  by (simp add: distance_def position_def)

section \<open>Properties of the expiry sweep\<close>

lemma lost_aircraft_seen:
  "seen d \<Longrightarrow>
   lost_aircraft now T d = Inr (map fst (filter (\<lambda>(k, ac). age_exceeds now T ac) d))"
proof (induction d)
  case Nil
  then show ?case by simp
next
  case (Cons p d)
  obtain k ac where p: "p = (k, ac)" by (cases p)
  from Cons.prems p obtain t where t: "last_seen ac = Some t" and d: "seen d"
    by (auto simp: seen_def)
  from Cons.IH [OF d] p t show ?case
    by (simp add: age_exceeds_def)
qed

lemma del_items_filter:
  "distinct ks \<Longrightarrow> set ks \<subseteq> fst ` set d \<Longrightarrow>
   del_items ks d = Inr (filter (\<lambda>(k, ac). k \<notin> set ks) d)"
proof (induction ks arbitrary: d)
  case Nil
  then show ?case by simp
next
  case (Cons k ks)
  from Cons.prems have k: "k \<in> fst ` set d" and nk: "k \<notin> set ks" and dist: "distinct ks"
    by auto
  from k have "map_of d k \<noteq> None"
    by (simp add: map_of_eq_None_iff)
  then have di: "del_item k d = Inr (AList.delete k d)"
    by (simp add: del_item_def)
  have sub: "set ks \<subseteq> fst ` set (AList.delete k d)"
  proof
    fix x assume x: "x \<in> set ks"
    with Cons.prems(2) obtain b where "(x, b) \<in> set d" by force
    moreover from x nk have "x \<noteq> k" by blast
    ultimately have "(x, b) \<in> set (AList.delete k d)"
      by (auto simp: AList.delete_eq)
    then show "x \<in> fst ` set (AList.delete k d)" by force
  qed
  have "filter (\<lambda>(k', ac). k' \<notin> set ks) (AList.delete k d) =
        filter (\<lambda>(k', ac). k' \<notin> set (k # ks)) d"
    by (auto simp: AList.delete_eq intro!: filter_cong)
  with Cons.IH [OF dist sub] di show ?case
    by simp
qed

lemma discard_lost_aircraft_filter:
  assumes "distinct (map fst d)" and "seen d"
  shows "discard_lost_aircraft s now d =
         Inr (filter (\<lambda>(k, ac). \<not> age_exceeds now (expiry_threshold s) ac) d)"
proof -
  let ?T = "expiry_threshold s"
  let ?lost = "map fst (filter (\<lambda>(k, ac). age_exceeds now ?T ac) d)"
  from assms(1) have dl: "distinct ?lost"
    by (rule distinct_map_filter)
  have sub: "set ?lost \<subseteq> fst ` set d"
    by auto
  have "filter (\<lambda>(k, ac). k \<notin> set ?lost) d =
        filter (\<lambda>(k, ac). \<not> age_exceeds now ?T ac) d"
  proof (rule filter_cong [OF refl])
    fix p assume pin: "p \<in> set d"
    obtain k ac where p: "p = (k, ac)" by (cases p)
    have "k \<in> set ?lost \<longleftrightarrow> age_exceeds now ?T ac"
    proof
      assume "k \<in> set ?lost"
      then obtain ac' where in': "(k, ac') \<in> set d" and ex: "age_exceeds now ?T ac'"
        by auto
      from assms(1) in' pin p have "ac' = ac"
        by (metis eq_key_imp_eq_value)
      with ex show "age_exceeds now ?T ac" by simp
    next
      assume "age_exceeds now ?T ac"
      with pin p show "k \<in> set ?lost" by force
    qed
    with p show "(case p of (k, ac) \<Rightarrow> k \<notin> set ?lost) =
                 (case p of (k, ac) \<Rightarrow> \<not> age_exceeds now ?T ac)"
      by simp
  qed
  with lost_aircraft_seen [OF assms(2), of now ?T] del_items_filter [OF dl sub] show ?thesis
    by (simp add: discard_lost_aircraft_def)
qed


lemma map_of_filter_distinct:
  assumes "distinct (map fst d)" and "map_of d k = Some v"
  shows "map_of (filter (\<lambda>(k, v). P v) d) k = (if P v then Some v else None)"
proof (cases "P v")
  case True
  with assms(2) map_of_filter_in [of d k v "\<lambda>k v. P v"] show ?thesis
    by simp
next
  case False
  have "k \<notin> fst ` set (filter (\<lambda>(k, v). P v) d)"
  proof
    assume "k \<in> fst ` set (filter (\<lambda>(k, v). P v) d)"
    then obtain v' where in': "(k, v') \<in> set d" and pv: "P v'"
      by auto
    from assms(1) in' have "map_of d k = Some v'"
      by simp
    with assms(2) pv False show False by simp
  qed
  then have "map_of (filter (\<lambda>(k, v). P v) d) k = None"
    by (simp add: map_of_eq_None_iff)
  with False show ?thesis by simp
qed

lemma map_of_filter_None:
  "map_of d k = None \<Longrightarrow> map_of (filter P d) k = None"
  by (auto simp: map_of_eq_None_iff)

lemma scenario_dict_ok:
  "distinct (map fst scenario_dict)" "seen scenario_dict"
  by (simp_all add: scenario_dict_def seen_def seen_aircraft_def)

lemma scenario_dict_filter:
  "filter (\<lambda>(k, ac). \<not> age_exceeds 130000000 (expiry_threshold scenario_session) ac) scenario_dict
   = [(''BBBBBB'', seen_aircraft ''BBBBBB'' 100000000)]"
  by (simp add: scenario_dict_def age_exceeds_def seen_aircraft_def scenario_session_def
      timedelta_minutes_def)

text \<open>
  C6. One run of the expiry sweep on a dict whose records have all been seen: the sweep
  returns, what it leaves is the dict without the records whose age exceeds the
  threshold, in the same order; so a key of the dict is absent afterwards exactly when
  its record's age exceeded the threshold, and every other record is kept unchanged.
\<close>

theorem discard_lost_aircraft_sweep:
  assumes "distinct (map fst d)" and "seen d"
  shows "\<exists>d'. discard_lost_aircraft s now d = Inr d' \<and>
           d' = filter (\<lambda>(k, ac). \<not> age_exceeds now (expiry_threshold s) ac) d \<and>
           (\<forall>k ac. map_of d k = Some ac \<longrightarrow>
              (map_of d' k = None \<longleftrightarrow> age_exceeds now (expiry_threshold s) ac) \<and>
              (\<not> age_exceeds now (expiry_threshold s) ac \<longrightarrow> map_of d' k = Some ac)) \<and>
           (\<forall>k. map_of d k = None \<longrightarrow> map_of d' k = None)"
proof -
  let ?d' = "filter (\<lambda>(k, ac). \<not> age_exceeds now (expiry_threshold s) ac) d"
  have "discard_lost_aircraft s now d = Inr ?d'"
    using assms by (rule discard_lost_aircraft_filter)
  moreover have "\<forall>k ac. map_of d k = Some ac \<longrightarrow>
      (map_of ?d' k = None \<longleftrightarrow> age_exceeds now (expiry_threshold s) ac) \<and>
      (\<not> age_exceeds now (expiry_threshold s) ac \<longrightarrow> map_of ?d' k = Some ac)"
    using map_of_filter_distinct [OF assms(1), where P = "\<lambda>ac. \<not> age_exceeds now (expiry_threshold s) ac"]
    by simp
  moreover have "\<forall>k. map_of d k = None \<longrightarrow> map_of ?d' k = None"
    by (simp add: map_of_filter_None)
  ultimately show ?thesis
    by blast
qed

theorem discard_lost_aircraft_sweep_witness:
  "distinct (map fst scenario_dict) \<and> seen scenario_dict \<and>
   discard_lost_aircraft scenario_session 130000000 scenario_dict =
     Inr [(''BBBBBB'', seen_aircraft ''BBBBBB'' 100000000)] \<and>
   map_of scenario_dict ''AAAAAA'' = Some (seen_aircraft ''AAAAAA'' 0) \<and>
   age_exceeds 130000000 (expiry_threshold scenario_session) (seen_aircraft ''AAAAAA'' 0)"
proof -
  from discard_lost_aircraft_sweep [OF scenario_dict_ok, of scenario_session 130000000]
  have "discard_lost_aircraft scenario_session 130000000 scenario_dict =
      Inr (filter (\<lambda>(k, ac). \<not> age_exceeds 130000000 (expiry_threshold scenario_session) ac)
        scenario_dict)"
    by auto
  moreover have "map_of scenario_dict ''AAAAAA'' = Some (seen_aircraft ''AAAAAA'' 0)"
    by (simp add: scenario_dict_def)
  moreover have "age_exceeds 130000000 (expiry_threshold scenario_session) (seen_aircraft ''AAAAAA'' 0)"
    by (simp add: age_exceeds_def seen_aircraft_def scenario_session_def timedelta_minutes_def)
  ultimately show ?thesis
    using scenario_dict_ok scenario_dict_filter by simp
qed

text \<open>
  C7. Loading a cache whose records have all been seen: the cache without its expired
  records replaces the session's dict, unless nothing is left of it, in which case the
  dict stays as it was. So every record of the cache that has not expired is restored,
  and the key of an expired one is absent afterwards unless the session held that key
  before the load (in \<open>__init__\<close>, where the cache is loaded, the dict is empty).
\<close>

theorem load_aircraft_cache_drops_expired:
  assumes "distinct (map fst cached)" and "seen cached"
  shows "\<exists>s'. load_aircraft_cache s now cached = Inr s' \<and>
           aircraft s' =
             (if filter (\<lambda>(k, ac). \<not> age_exceeds now (expiry_threshold s) ac) cached = []
              then aircraft s
              else filter (\<lambda>(k, ac). \<not> age_exceeds now (expiry_threshold s) ac) cached) \<and>
           (\<forall>k ac. map_of cached k = Some ac \<and> \<not> age_exceeds now (expiry_threshold s) ac \<longrightarrow>
              map_of (aircraft s') k = Some ac) \<and>
           (\<forall>k ac. map_of cached k = Some ac \<and> age_exceeds now (expiry_threshold s) ac \<and>
              map_of (aircraft s) k = None \<longrightarrow> map_of (aircraft s') k = None)"
proof -
  let ?c = "filter (\<lambda>(k, ac). \<not> age_exceeds now (expiry_threshold s) ac) cached"
  let ?s' = "if ?c \<noteq> [] then s\<lparr>aircraft := ?c\<rparr> else s"
  from assms have d: "discard_lost_aircraft s now cached = Inr ?c"
    by (rule discard_lost_aircraft_filter)
  then have l: "load_aircraft_cache s now cached = Inr ?s'"
    by (simp add: load_aircraft_cache_def)
  have a: "aircraft ?s' = (if ?c = [] then aircraft s else ?c)"
    by simp
  have m: "map_of ?c k = (if age_exceeds now (expiry_threshold s) ac then None else Some ac)"
    if "map_of cached k = Some ac" for k ac
    using map_of_filter_distinct [OF assms(1) that,
        where P = "\<lambda>ac. \<not> age_exceeds now (expiry_threshold s) ac"]
    by simp
  have kept: "\<forall>k ac. map_of cached k = Some ac \<and> \<not> age_exceeds now (expiry_threshold s) ac \<longrightarrow>
      map_of (aircraft ?s') k = Some ac"
  proof (intro allI impI)
    fix k ac
    assume h: "map_of cached k = Some ac \<and> \<not> age_exceeds now (expiry_threshold s) ac"
    with m [of k ac] have mc: "map_of ?c k = Some ac"
      by simp
    then have "?c \<noteq> []"
      by auto
    with mc show "map_of (aircraft ?s') k = Some ac"
      by simp
  qed
  have dropped: "\<forall>k ac. map_of cached k = Some ac \<and> age_exceeds now (expiry_threshold s) ac \<and>
      map_of (aircraft s) k = None \<longrightarrow> map_of (aircraft ?s') k = None"
  proof (intro allI impI)
    fix k ac
    assume h: "map_of cached k = Some ac \<and> age_exceeds now (expiry_threshold s) ac \<and>
      map_of (aircraft s) k = None"
    with m [of k ac] have "map_of ?c k = None"
      by simp
    with h show "map_of (aircraft ?s') k = None"
      by simp
  qed
  from l a kept dropped show ?thesis
    by (intro exI [of _ ?s'] conjI)
qed

theorem load_aircraft_cache_drops_expired_witness:
  "distinct (map fst scenario_dict) \<and> seen scenario_dict \<and>
   load_aircraft_cache scenario_session 130000000 scenario_dict =
     Inr (scenario_session\<lparr>aircraft := [(''BBBBBB'', seen_aircraft ''BBBBBB'' 100000000)]\<rparr>) \<and>
   map_of scenario_dict ''AAAAAA'' = Some (seen_aircraft ''AAAAAA'' 0) \<and>
   age_exceeds 130000000 (expiry_threshold scenario_session) (seen_aircraft ''AAAAAA'' 0) \<and>
   map_of (aircraft scenario_session) ''AAAAAA'' = None \<and>
   map_of scenario_dict ''BBBBBB'' = Some (seen_aircraft ''BBBBBB'' 100000000) \<and>
   \<not> age_exceeds 130000000 (expiry_threshold scenario_session)
       (seen_aircraft ''BBBBBB'' 100000000)"
proof -
  from load_aircraft_cache_drops_expired [OF scenario_dict_ok, of scenario_session 130000000]
  obtain s' where s': "load_aircraft_cache scenario_session 130000000 scenario_dict = Inr s'"
    "aircraft s' = [(''BBBBBB'', seen_aircraft ''BBBBBB'' 100000000)]"
    unfolding scenario_dict_filter by auto
  have "load_aircraft_cache scenario_session 130000000 scenario_dict =
      Inr (scenario_session\<lparr>aircraft := aircraft s'\<rparr>)"
    using s' by (auto simp: load_aircraft_cache_def split: sum.splits if_splits)
  moreover have "map_of scenario_dict ''AAAAAA'' = Some (seen_aircraft ''AAAAAA'' 0)"
      "map_of scenario_dict ''BBBBBB'' = Some (seen_aircraft ''BBBBBB'' 100000000)"
    by (simp_all add: scenario_dict_def)
  moreover have "age_exceeds 130000000 (expiry_threshold scenario_session)
      (seen_aircraft ''AAAAAA'' 0)"
      "\<not> age_exceeds 130000000 (expiry_threshold scenario_session)
         (seen_aircraft ''BBBBBB'' 100000000)"
    by (simp_all add: age_exceeds_def seen_aircraft_def scenario_session_def
        timedelta_minutes_def)
  moreover have "map_of (aircraft scenario_session) ''AAAAAA'' = None"
    by (simp add: scenario_session_def)
  ultimately show ?thesis
    using s'(2) scenario_dict_ok by simp
qed

section \<open>Properties of the session\<close>

lemma apply_transmission_last_seen:
  "last_seen ac = Some now \<Longrightarrow> last_seen (apply_transmission ac msg now) = Some now"
  by (simp add: apply_transmission_def update_ident_def update_position_def update_motion_def
      update_altitude_def Let_def split: option.splits prod.splits)

lemma apply_transmission_msg_count:
  "msg_count (apply_transmission ac msg now) = msg_count ac"
  by (simp add: apply_transmission_def update_ident_def update_position_def update_motion_def
      update_altitude_def Let_def split: option.splits prod.splits)

lemma Aircraft_init_default:
  "\<exists>ac. Aircraft_init h 50 (Some 5) = Inr ac \<and> msg_count ac = 0"
  by (simp add: Aircraft_init_def deque_init_def)

lemma on_sbs_message_transmission:
  assumes "message_fromString msg_str = Inr msg" and "hex_ident msg \<noteq> ''000000''"
    and "message_type msg = Transmission"
    and "on_sbs_message message_fromString now s msg_str = Inr s'"
  shows "\<exists>ac0. msg_count ac0 = (case map_of (aircraft s) (hex_ident msg) of
                     Some a \<Rightarrow> msg_count a | None \<Rightarrow> 0) \<and>
           aircraft s' = AList.update (hex_ident msg)
             (apply_transmission (ac0\<lparr>last_seen := Some now, msg_count := msg_count ac0 + 1\<rparr>) msg now)
             (aircraft s)"
proof (cases "map_of (aircraft s) (hex_ident msg)")
  case None
  obtain ac where ac: "Aircraft_init (hex_ident msg) 50 (Some 5) = Inr ac" "msg_count ac = 0"
    using Aircraft_init_default by blast
  let ?ac0 = "ac\<lparr>Aircraft.origin := Session.origin s\<rparr>"
  from assms None ac
  have "aircraft s' = AList.update (hex_ident msg)
      (apply_transmission (?ac0\<lparr>last_seen := Some now, msg_count := msg_count ?ac0 + 1\<rparr>) msg now)
      (aircraft s)"
    by (auto simp: on_sbs_message_def Let_def split: sum.splits if_splits)
  moreover from ac None
  have "msg_count ?ac0 = (case map_of (aircraft s) (hex_ident msg) of
                     Some a \<Rightarrow> msg_count a | None \<Rightarrow> 0)"
    by simp
  ultimately show ?thesis
    by blast
next
  case (Some a)
  with assms
  have "aircraft s' = AList.update (hex_ident msg)
      (apply_transmission (a\<lparr>last_seen := Some now, msg_count := msg_count a + 1\<rparr>) msg now)
      (aircraft s)"
    by (auto simp: on_sbs_message_def Let_def split: sum.splits if_splits)
  moreover from Some
  have "msg_count a = (case map_of (aircraft s) (hex_ident msg) of
                     Some a \<Rightarrow> msg_count a | None \<Rightarrow> 0)"
    by simp
  ultimately show ?thesis
    by blast
qed

lemma set_update_subset_insert:
  "set (AList.update k v al) \<subseteq> insert (k, v) (set al)"
  by (induction al) auto

lemma on_sbs_message_other:
  assumes "message_fromString msg_str = Inr msg"
    and "hex_ident msg = ''000000'' \<or> message_type msg \<noteq> Transmission"
  shows "on_sbs_message message_fromString now s msg_str = Inr s"
  using assms by (auto simp: on_sbs_message_def)

lemma on_sbs_message_inv:
  assumes "session_inv s" and "on_sbs_message message_fromString now s msg_str = Inr s'"
  shows "session_inv s'"
proof -
  from assms(2) obtain msg where m: "message_fromString msg_str = Inr msg"
    by (auto simp: on_sbs_message_def split: sum.splits)
  show ?thesis
  proof (cases "hex_ident msg = ''000000'' \<or> message_type msg \<noteq> Transmission")
    case True
    from m True have "on_sbs_message message_fromString now s msg_str = Inr s"
      by (rule on_sbs_message_other)
    with assms show ?thesis
      by simp
  next
    case False
    then have nz: "hex_ident msg \<noteq> ''000000''" and tr: "message_type msg = Transmission"
      by simp_all
    from m nz tr assms(2) have "\<exists>ac0. msg_count ac0 = (case map_of (aircraft s) (hex_ident msg) of
                     Some a \<Rightarrow> msg_count a | None \<Rightarrow> 0) \<and>
           aircraft s' = AList.update (hex_ident msg)
             (apply_transmission (ac0\<lparr>last_seen := Some now, msg_count := msg_count ac0 + 1\<rparr>) msg now)
             (aircraft s)"
      by (rule on_sbs_message_transmission)
    then obtain ac0 where
      c: "msg_count ac0 = (case map_of (aircraft s) (hex_ident msg) of
                     Some a \<Rightarrow> msg_count a | None \<Rightarrow> 0)" and
      a: "aircraft s' = AList.update (hex_ident msg)
             (apply_transmission (ac0\<lparr>last_seen := Some now, msg_count := msg_count ac0 + 1\<rparr>) msg now)
             (aircraft s)"
      by blast
    let ?ac = "apply_transmission (ac0\<lparr>last_seen := Some now, msg_count := msg_count ac0 + 1\<rparr>) msg now"
    have ls: "last_seen ?ac = Some now"
      by (rule apply_transmission_last_seen) simp
    have "0 \<le> msg_count ac0"
    proof (cases "map_of (aircraft s) (hex_ident msg)")
      case None
      with c show ?thesis by simp
    next
      case (Some a')
      then have "(hex_ident msg, a') \<in> set (aircraft s)"
        by (rule map_of_SomeD)
      with assms(1) have "1 \<le> msg_count a'"
        by (auto simp: session_inv_def aircraft_dict_inv_def)
      with c Some show ?thesis by simp
    qed
    then have mc: "1 \<le> msg_count ?ac"
      by (simp add: apply_transmission_msg_count)
    from assms(1) have "distinct (map fst (aircraft s'))"
      by (simp add: a session_inv_def aircraft_dict_inv_def distinct_update)
    moreover have "\<forall>(k, ac) \<in> set (aircraft s'). last_seen ac \<noteq> None \<and> 1 \<le> msg_count ac"
    proof -
      have "set (aircraft s') \<subseteq> insert (hex_ident msg, ?ac) (set (aircraft s))"
        unfolding a by (rule set_update_subset_insert)
      with assms(1) ls mc show ?thesis
        by (auto simp: session_inv_def aircraft_dict_inv_def)
    qed
    ultimately show ?thesis
      by (simp add: session_inv_def aircraft_dict_inv_def)
  qed
qed

lemma manage_session_round_inv:
  assumes "session_inv s"
  shows "\<exists>s'. manage_session_round s now = Inr s' \<and> session_inv s' \<and>
           set (aircraft s') \<subseteq> set (aircraft s)"
proof -
  let ?d = "filter (\<lambda>(k, ac). \<not> age_exceeds now (expiry_threshold s) ac) (aircraft s)"
  from assms have d: "distinct (map fst (aircraft s))" and sn: "seen (aircraft s)"
    by (auto simp: session_inv_def aircraft_dict_inv_def seen_def)
  then have "discard_lost_aircraft s now (aircraft s) = Inr ?d"
    by (rule discard_lost_aircraft_filter)
  then have m: "manage_session_round s now = Inr (s\<lparr>aircraft := ?d\<rparr>)"
    by (simp add: manage_session_round_def)
  from d have "distinct (map fst ?d)"
    by (rule distinct_map_filter)
  with assms have "session_inv (s\<lparr>aircraft := ?d\<rparr>)"
    by (auto simp: session_inv_def aircraft_dict_inv_def)
  with m show ?thesis
    by auto
qed

lemma scenario_step:
  "\<exists>s'. on_sbs_message scenario_parser 1000000 scenario_session ''A'' = Inr s' \<and>
     map fst (aircraft s') = [''7C79B7'']"
  by (simp add: on_sbs_message_def scenario_parser_def scenario_msg_def scenario_session_def
      Aircraft_init_def deque_init_def Let_def)

lemma scenario_msg_fields:
  "hex_ident scenario_msg = ''7C79B7''"
  "message_type scenario_msg = Transmission"
  "transmission_type scenario_msg = Some 3"
  by (simp_all add: scenario_msg_def)

lemma on_sbs_messages_filter:
  "on_sbs_messages message_fromString s inputs =
   on_sbs_messages message_fromString s (filter (\<lambda>(now, m). \<not> zero_icao message_fromString m) inputs)"
proof (induction inputs arbitrary: s)
  case Nil
  show ?case by simp
next
  case (Cons x rest)
  obtain now m where x: "x = (now, m)" by (cases x)
  show ?case
  proof (cases "zero_icao message_fromString m")
    case True
    then obtain msg where "message_fromString m = Inr msg" "hex_ident msg = ''000000''"
      by (auto simp: zero_icao_def split: sum.splits)
    then have "on_sbs_message message_fromString now s m = Inr s"
      by (simp add: on_sbs_message_def)
    with True x Cons.IH [of s] show ?thesis
      by simp
  next
    case False
    with x Cons.IH show ?thesis
      by (simp split: sum.splits)
  qed
qed

lemma on_sbs_message_client_delivers:
  assumes "on_sbs_message_client decode message_fromString c msg_data = Inr c'"
  shows "messages_received c' = messages_received c @
          (if on_msg_callback c
           then (case decode msg_data of
                   Inl e \<Rightarrow> []
                 | Inr msg_str \<Rightarrow>
                     (case message_fromString msg_str of
                        Inl e \<Rightarrow> []
                      | Inr msg \<Rightarrow> if hex_ident msg = ''000000'' then [] else [msg]))
           else [])"
  using assms
  by (auto simp: on_sbs_message_client_def Let_def split: sum.splits if_splits)

lemma on_sbs_message_client_received:
  assumes "on_sbs_message_client decode message_fromString c msg_data = Inr c'"
  shows "\<exists>new. messages_received c' = messages_received c @ new \<and>
           (\<forall>m \<in> set new. hex_ident m \<noteq> ''000000'')"
proof -
  let ?new = "if on_msg_callback c
           then (case decode msg_data of
                   Inl e \<Rightarrow> []
                 | Inr msg_str \<Rightarrow>
                     (case message_fromString msg_str of
                        Inl e \<Rightarrow> []
                      | Inr msg \<Rightarrow> if hex_ident msg = ''000000'' then [] else [msg]))
           else []"
  have "messages_received c' = messages_received c @ ?new"
    using on_sbs_message_client_delivers [OF assms] .
  moreover have "\<forall>m \<in> set ?new. hex_ident m \<noteq> ''000000''"
  proof (cases "on_msg_callback c")
    case False
    then show ?thesis by simp
  next
    case cb: True
    show ?thesis
    proof (cases "decode msg_data")
      case (Inl e)
      with cb show ?thesis by simp
    next
      case (Inr msg_str)
      with cb show ?thesis
        by (cases "message_fromString msg_str") simp_all
    qed
  qed
  ultimately have "messages_received c' = messages_received c @ ?new \<and>
      (\<forall>m \<in> set ?new. hex_ident m \<noteq> ''000000'')"
    by (rule conjI)
  then show ?thesis
    by (rule exI [of _ ?new])
qed

lemma on_sbs_messages_client_received:
  "on_sbs_messages_client decode message_fromString c datas = Inr c' \<Longrightarrow>
   \<exists>new. messages_received c' = messages_received c @ new \<and>
     (\<forall>m \<in> set new. hex_ident m \<noteq> ''000000'')"
proof (induction datas arbitrary: c)
  case Nil
  then have "messages_received c' = messages_received c @ [] \<and>
      (\<forall>m \<in> set []. hex_ident m \<noteq> ''000000'')"
    by simp
  then show ?case
    by (rule exI [of _ "[]"])
next
  case (Cons d rest)
  from Cons.prems obtain c1 where
    c1: "on_sbs_message_client decode message_fromString c d = Inr c1" and
    r: "on_sbs_messages_client decode message_fromString c1 rest = Inr c'"
    by (auto split: sum.splits)
  from on_sbs_message_client_received [OF c1] obtain new1 where
    n1: "messages_received c1 = messages_received c @ new1 \<and>
      (\<forall>m \<in> set new1. hex_ident m \<noteq> ''000000'')" ..
  from Cons.IH [OF r] obtain new2 where
    n2: "messages_received c' = messages_received c1 @ new2 \<and>
      (\<forall>m \<in> set new2. hex_ident m \<noteq> ''000000'')" ..
  from n1 n2 have "messages_received c' = messages_received c @ (new1 @ new2) \<and>
      (\<forall>m \<in> set (new1 @ new2). hex_ident m \<noteq> ''000000'')"
    by (simp add: ball_Un)
  then show ?case
    by (rule exI [of _ "new1 @ new2"])
qed

lemma on_sbs_message_client_zero:
  assumes "decode msg_data = Inr msg_str" and "message_fromString msg_str = Inr msg"
    and "hex_ident msg = ''000000''"
    and "on_sbs_message_client decode message_fromString c msg_data = Inr c'"
  shows "messages_received c' = messages_received c"
  using on_sbs_message_client_delivers [OF assms(4)] assms(1-3) by simp

text \<open>
  C3. A message with the all-zero ICAO address changes nothing: \<open>on_sbs_message\<close>
  returns the session as it was (no record inserted, none updated), and the client does
  not pass it to the parsed-message callback. For a whole stream, the session ends in the
  state it reaches on the stream without its all-zero messages, and no message that the
  client delivers carries the all-zero address.
\<close>

theorem zero_icao_rejected:
  "(\<forall>msg. message_fromString msg_str = Inr msg \<and> hex_ident msg = ''000000'' \<longrightarrow>
      on_sbs_message message_fromString now s msg_str = Inr s \<and>
      (\<forall>c'. decode msg_data = Inr msg_str \<and>
         on_sbs_message_client decode message_fromString c msg_data = Inr c' \<longrightarrow>
         messages_received c' = messages_received c)) \<and>
   on_sbs_messages message_fromString s inputs =
     on_sbs_messages message_fromString s (filter (\<lambda>(now, m). \<not> zero_icao message_fromString m) inputs) \<and>
   (\<forall>c'. on_sbs_messages_client decode message_fromString c datas = Inr c' \<longrightarrow>
      (\<exists>new. messages_received c' = messages_received c @ new \<and>
         (\<forall>m \<in> set new. hex_ident m \<noteq> ''000000'')))"
proof (intro conjI allI impI)
  fix msg assume "message_fromString msg_str = Inr msg \<and> hex_ident msg = ''000000''"
  then show "on_sbs_message message_fromString now s msg_str = Inr s"
    by (simp add: on_sbs_message_def)
next
  fix msg c'
  assume "message_fromString msg_str = Inr msg \<and> hex_ident msg = ''000000''"
    and "decode msg_data = Inr msg_str \<and>
      on_sbs_message_client decode message_fromString c msg_data = Inr c'"
  then show "messages_received c' = messages_received c"
    using on_sbs_message_client_zero [of decode msg_data msg_str message_fromString msg c c'] by blast
next
  show "on_sbs_messages message_fromString s inputs =
     on_sbs_messages message_fromString s (filter (\<lambda>(now, m). \<not> zero_icao message_fromString m) inputs)"
    by (rule on_sbs_messages_filter)
next
  fix c' assume "on_sbs_messages_client decode message_fromString c datas = Inr c'"
  then show "\<exists>new. messages_received c' = messages_received c @ new \<and>
         (\<forall>m \<in> set new. hex_ident m \<noteq> ''000000'')"
    by (rule on_sbs_messages_client_received)
qed

theorem zero_icao_rejected_witness:
  "scenario_parser ''Z'' = Inr (scenario_msg\<lparr>hex_ident := ''000000''\<rparr>) \<and>
   on_sbs_message scenario_parser 1000000 scenario_session ''Z'' = Inr scenario_session \<and>
   on_sbs_message_client Inr scenario_parser scenario_client ''Z'' = Inr scenario_client \<and>
   on_sbs_messages scenario_parser scenario_session [(1000000, ''A''), (2000000, ''Z'')] =
     on_sbs_messages scenario_parser scenario_session [(1000000, ''A'')] \<and>
   on_sbs_messages_client Inr scenario_parser scenario_client [''A'', ''Z''] =
     Inr (scenario_client\<lparr>messages_received := [scenario_msg]\<rparr>) \<and>
   hex_ident scenario_msg \<noteq> ''000000''"
proof -
  note t = zero_icao_rejected [where message_fromString = scenario_parser and msg_str = "''Z''"
      and now = 1000000 and s = scenario_session and decode = Inr and msg_data = "''Z''"
      and c = scenario_client and inputs = "[(1000000, ''A''), (2000000, ''Z'')]"
      and datas = "[''A'', ''Z'']"]
  have z: "scenario_parser ''Z'' = Inr (scenario_msg\<lparr>hex_ident := ''000000''\<rparr>)"
    by (simp add: scenario_parser_def)
  have hz: "hex_ident (scenario_msg\<lparr>hex_ident := ''000000''\<rparr>) = ''000000''"
    by simp
  have a: "on_sbs_message scenario_parser 1000000 scenario_session ''Z'' = Inr scenario_session"
    by (rule t [THEN conjunct1, THEN spec, THEN mp, OF conjI [OF z hz], THEN conjunct1])
  have f: "filter (\<lambda>(now, m). \<not> zero_icao scenario_parser m)
      [(1000000::int, ''A''), (2000000, ''Z'')] = [(1000000, ''A'')]"
    by (simp add: zero_icao_def scenario_parser_def scenario_msg_fields)
  have b: "on_sbs_messages scenario_parser scenario_session
      [(1000000, ''A''), (2000000, ''Z'')] =
     on_sbs_messages scenario_parser scenario_session [(1000000, ''A'')]"
    using t [THEN conjunct2, THEN conjunct1] unfolding f .
  have c0: "on_sbs_message_client Inr scenario_parser scenario_client ''Z'' = Inr scenario_client"
    by (simp add: on_sbs_message_client_def scenario_parser_def scenario_client_def
        scenario_msg_fields Let_def)
  have c1: "on_sbs_message_client Inr scenario_parser scenario_client ''A'' =
      Inr (scenario_client\<lparr>messages_received := [scenario_msg]\<rparr>)"
    by (simp add: on_sbs_message_client_def scenario_parser_def scenario_client_def
        scenario_msg_fields Let_def)
  have c2: "on_sbs_message_client Inr scenario_parser
      (scenario_client\<lparr>messages_received := [scenario_msg]\<rparr>) ''Z'' =
      Inr (scenario_client\<lparr>messages_received := [scenario_msg]\<rparr>)"
    by (simp add: on_sbs_message_client_def scenario_parser_def scenario_client_def
        scenario_msg_fields Let_def)
  have c: "on_sbs_messages_client Inr scenario_parser scenario_client [''A'', ''Z''] =
     Inr (scenario_client\<lparr>messages_received := [scenario_msg]\<rparr>)"
    by (simp add: c1 c2)
  have d: "hex_ident scenario_msg \<noteq> ''000000''"
    by (simp add: scenario_msg_fields)
  from z a c0 b c d show ?thesis
    by (intro conjI)
qed

lemma load_aircraft_cache_inv:
  assumes "session_inv s" and "aircraft_dict_inv cached"
  shows "\<exists>s'. load_aircraft_cache s now cached = Inr s' \<and> session_inv s'"
proof -
  let ?c = "filter (\<lambda>(k, ac). \<not> age_exceeds now (expiry_threshold s) ac) cached"
  from assms(2) have d: "distinct (map fst cached)" and sn: "seen cached"
    by (auto simp: aircraft_dict_inv_def seen_def)
  then have "discard_lost_aircraft s now cached = Inr ?c"
    by (rule discard_lost_aircraft_filter)
  then have l: "load_aircraft_cache s now cached =
      Inr (if ?c \<noteq> [] then s\<lparr>aircraft := ?c\<rparr> else s)"
    by (simp add: load_aircraft_cache_def)
  from d have "distinct (map fst ?c)"
    by (rule distinct_map_filter)
  with assms(2) have "aircraft_dict_inv ?c"
    by (auto simp: aircraft_dict_inv_def)
  with assms(1) have "session_inv (if ?c \<noteq> [] then s\<lparr>aircraft := ?c\<rparr> else s)"
    by (simp add: session_inv_def)
  with l show ?thesis
    by (intro exI conjI)
qed

text \<open>
  C10. The session invariant (distinct keys, every record seen and counted at least
  once) is preserved by \<open>on_sbs_message\<close> and by a round of the sweep, which under it
  always returns and only removes records; and after a transmission with a valid address
  the record of that address has \<open>last_seen\<close> set to the arrival time and its count
  raised by one (1 for a new record). Loading a cache whose dict satisfies the invariant
  keeps it too.
\<close>

theorem session_records_seen:
  assumes "session_inv s"
  shows "(\<forall>s'. on_sbs_message message_fromString now s msg_str = Inr s' \<longrightarrow> session_inv s') \<and>
         (\<exists>s'. manage_session_round s now' = Inr s' \<and> session_inv s' \<and>
            set (aircraft s') \<subseteq> set (aircraft s)) \<and>
         (\<forall>msg s'. message_fromString msg_str = Inr msg \<and> hex_ident msg \<noteq> ''000000'' \<and>
            message_type msg = Transmission \<and>
            on_sbs_message message_fromString now s msg_str = Inr s' \<longrightarrow>
            (\<exists>ac. map_of (aircraft s') (hex_ident msg) = Some ac \<and>
               last_seen ac = Some now \<and>
               msg_count ac = (case map_of (aircraft s) (hex_ident msg) of
                                 Some a \<Rightarrow> msg_count a + 1 | None \<Rightarrow> 1))) \<and>
         (\<forall>cached. aircraft_dict_inv cached \<longrightarrow>
            (\<exists>s'. load_aircraft_cache s now' cached = Inr s' \<and> session_inv s'))"
proof (intro conjI allI impI)
  fix cached assume "aircraft_dict_inv cached"
  with assms show "\<exists>s'. load_aircraft_cache s now' cached = Inr s' \<and> session_inv s'"
    by (rule load_aircraft_cache_inv)
next
  fix s' assume "on_sbs_message message_fromString now s msg_str = Inr s'"
  with assms show "session_inv s'"
    by (rule on_sbs_message_inv)
next
  from assms show "\<exists>s'. manage_session_round s now' = Inr s' \<and> session_inv s' \<and>
      set (aircraft s') \<subseteq> set (aircraft s)"
    by (rule manage_session_round_inv)
next
  fix msg s'
  assume a: "message_fromString msg_str = Inr msg \<and> hex_ident msg \<noteq> ''000000'' \<and>
      message_type msg = Transmission \<and> on_sbs_message message_fromString now s msg_str = Inr s'"
  then have "\<exists>ac0. msg_count ac0 = (case map_of (aircraft s) (hex_ident msg) of
                     Some a \<Rightarrow> msg_count a | None \<Rightarrow> 0) \<and>
           aircraft s' = AList.update (hex_ident msg)
             (apply_transmission (ac0\<lparr>last_seen := Some now, msg_count := msg_count ac0 + 1\<rparr>) msg now)
             (aircraft s)"
    using on_sbs_message_transmission [of message_fromString msg_str msg now s s'] by blast
  then obtain ac0 where
      c: "msg_count ac0 = (case map_of (aircraft s) (hex_ident msg) of
                     Some a \<Rightarrow> msg_count a | None \<Rightarrow> 0)" and
      u: "aircraft s' = AList.update (hex_ident msg)
             (apply_transmission (ac0\<lparr>last_seen := Some now, msg_count := msg_count ac0 + 1\<rparr>) msg now)
             (aircraft s)"
    by blast
  let ?ac = "apply_transmission (ac0\<lparr>last_seen := Some now, msg_count := msg_count ac0 + 1\<rparr>) msg now"
  have "map_of (aircraft s') (hex_ident msg) = Some ?ac"
    by (simp add: u update_conv')
  moreover have "last_seen ?ac = Some now"
    by (rule apply_transmission_last_seen) simp
  moreover from c have "msg_count ?ac = (case map_of (aircraft s) (hex_ident msg) of
                                 Some a \<Rightarrow> msg_count a + 1 | None \<Rightarrow> 1)"
    by (simp add: apply_transmission_msg_count split: option.splits)
  ultimately show "\<exists>ac. map_of (aircraft s') (hex_ident msg) = Some ac \<and>
               last_seen ac = Some now \<and>
               msg_count ac = (case map_of (aircraft s) (hex_ident msg) of
                                 Some a \<Rightarrow> msg_count a + 1 | None \<Rightarrow> 1)"
    by blast
qed

theorem session_records_seen_witness:
  "session_inv scenario_session \<and>
   (\<exists>s'. on_sbs_message scenario_parser 1000000 scenario_session ''A'' = Inr s' \<and>
      map fst (aircraft s') = [''7C79B7''] \<and> session_inv s' \<and>
      (\<exists>ac. map_of (aircraft s') ''7C79B7'' = Some ac \<and> last_seen ac = Some 1000000 \<and>
         msg_count ac = 1)) \<and>
   manage_session_round scenario_session 5000000 = Inr scenario_session \<and>
   aircraft_dict_inv scenario_dict \<and>
   (\<exists>s'. load_aircraft_cache scenario_session 5000000 scenario_dict = Inr s' \<and>
      session_inv s')"
proof -
  have inv: "session_inv scenario_session"
    by (simp add: session_inv_def aircraft_dict_inv_def scenario_session_def)
  note t = session_records_seen [OF inv, where message_fromString = scenario_parser
      and now = 1000000 and msg_str = "''A''" and now' = 5000000]
  obtain s' where s': "on_sbs_message scenario_parser 1000000 scenario_session ''A'' = Inr s'"
      "map fst (aircraft s') = [''7C79B7'']"
    using scenario_step by auto
  from t s' have i': "session_inv s'"
    by blast
  have m: "scenario_parser ''A'' = Inr scenario_msg" "hex_ident scenario_msg = ''7C79B7''"
      "message_type scenario_msg = Transmission"
    by (simp_all add: scenario_parser_def scenario_msg_def)
  from t s' m have r: "\<exists>ac. map_of (aircraft s') ''7C79B7'' = Some ac \<and>
      last_seen ac = Some 1000000 \<and> msg_count ac = 1"
    by (simp add: scenario_session_def)
  have ms: "manage_session_round scenario_session 5000000 = Inr scenario_session"
    by (simp add: manage_session_round_def discard_lost_aircraft_def scenario_session_def)
  have di: "aircraft_dict_inv scenario_dict"
    by (simp add: aircraft_dict_inv_def scenario_dict_def seen_aircraft_def)
  from t [THEN conjunct2, THEN conjunct2, THEN conjunct2, THEN spec, THEN mp, OF di]
  have ld: "\<exists>s'. load_aircraft_cache scenario_session 5000000 scenario_dict = Inr s' \<and>
      session_inv s'" .
  from s' i' r have "\<exists>s'. on_sbs_message scenario_parser 1000000 scenario_session ''A'' = Inr s' \<and>
      map fst (aircraft s') = [''7C79B7''] \<and> session_inv s' \<and>
      (\<exists>ac. map_of (aircraft s') ''7C79B7'' = Some ac \<and> last_seen ac = Some 1000000 \<and>
         msg_count ac = 1)"
    by (intro exI [of _ s'] conjI)
  with inv ms di ld show ?thesis
    by (intro conjI)
qed

section \<open>Properties of the message codec\<close>

lemma digit_val_digit_char: "d < 10 \<Longrightarrow> digit_val (digit_char d) = Some d"
  by (simp add: digit_val_def digit_char_def)

lemma digit_val_zero: "digit_val (CHR ''0'') = Some 0"
  by (simp add: digit_val_def)

lemma digit_val_not_sep:
  "digit_val (CHR ''-'') = None" "digit_val (CHR ''.'') = None" "digit_val (CHR '','') = None"
  "digit_val (CHR ''/'') = None" "digit_val (CHR '':'') = None"
  by (simp_all add: digit_val_def)

lemma all_digits_simps:
  "all_digits []" "all_digits (c # s) = (digit_val c \<noteq> None \<and> all_digits s)"
  "all_digits (s @ t) = (all_digits s \<and> all_digits t)"
  by (auto simp: all_digits_def)

lemma all_digits_replicate: "all_digits (replicate k (CHR ''0''))"
  by (simp add: all_digits_def digit_val_zero)

lemma all_digits_take_drop: "all_digits s \<Longrightarrow> all_digits (take k s) \<and> all_digits (drop k s)"
  by (auto simp: all_digits_def dest: in_set_takeD in_set_dropD)

lemma show_nat_digits: "all_digits (show_nat n)"
proof (induction n rule: show_nat.induct)
  case (1 n)
  show ?case
  proof (cases "n < 10")
    case True
    then show ?thesis
      by (simp add: show_nat.simps [of n] all_digits_simps digit_val_digit_char)
  next
    case False
    with "1.IH" show ?thesis
      by (simp add: show_nat.simps [of n] all_digits_simps digit_val_digit_char)
  qed
qed

lemma show_nat_nonempty: "show_nat n \<noteq> []"
  by (simp add: show_nat.simps [of n])

lemma nat_of_digits_append:
  "nat_of_digits (s @ t) acc =
     (case nat_of_digits s acc of None \<Rightarrow> None | Some v \<Rightarrow> nat_of_digits t v)"
  by (induction s arbitrary: acc) (auto split: option.splits)

lemma nat_of_digits_show_nat: "nat_of_digits (show_nat n) 0 = Some n"
proof (induction n rule: show_nat.induct)
  case (1 n)
  show ?case
  proof (cases "n < 10")
    case True
    then show ?thesis
      by (simp add: show_nat.simps [of n] digit_val_digit_char)
  next
    case False
    with "1.IH" show ?thesis
      by (simp add: show_nat.simps [of n] nat_of_digits_append digit_val_digit_char)
  qed
qed

lemma nat_of_digits_zeros:
  "nat_of_digits (replicate k (CHR ''0'') @ s) 0 = nat_of_digits s 0"
  by (induction k) (simp_all add: digit_val_zero)

lemma parse_nat_show_nat: "parse_nat (show_nat n) = Some n"
  by (simp add: parse_nat_def show_nat_nonempty nat_of_digits_show_nat)

lemma parse_nat_zfill: "parse_nat (zfill k (show_nat n)) = Some n"
  by (simp add: parse_nat_def zfill_def show_nat_nonempty nat_of_digits_zeros
      nat_of_digits_show_nat)

lemma zfill_digits: "all_digits (zfill k (show_nat n))"
  by (simp add: zfill_def all_digits_simps all_digits_replicate show_nat_digits)

lemma zfill_nonempty: "zfill k (show_nat n) \<noteq> []"
  by (simp add: zfill_def show_nat_nonempty)

lemma nat_of_digits_acc:
  "all_digits s \<Longrightarrow>
   \<exists>w. nat_of_digits s 0 = Some w \<and> w < 10 ^ length s \<and>
     (\<forall>acc. nat_of_digits s acc = Some (acc * 10 ^ length s + w))"
proof (induction s)
  case Nil
  then show ?case by simp
next
  case (Cons c s)
  then obtain d where d: "digit_val c = Some d" and s: "all_digits s"
    by (auto simp: all_digits_simps)
  from d have d10: "d < 10"
    by (auto simp: digit_val_def Let_def split: if_splits)
  from Cons.IH [OF s] obtain w where
    w: "nat_of_digits s 0 = Some w" "w < 10 ^ length s"
      "\<forall>acc. nat_of_digits s acc = Some (acc * 10 ^ length s + w)"
    by blast
  let ?w = "d * 10 ^ length s + w"
  have "nat_of_digits (c # s) 0 = Some ?w"
    using d w(3) by simp
  moreover have "?w < 10 ^ length (c # s)"
  proof -
    from d10 have "d * 10 ^ length s \<le> 9 * 10 ^ length s"
      by simp
    with w(2) have "d * 10 ^ length s + w < 9 * 10 ^ length s + 10 ^ length s"
      by linarith
    then show ?thesis by simp
  qed
  moreover have "\<forall>acc. nat_of_digits (c # s) acc = Some (acc * 10 ^ length (c # s) + ?w)"
    using d w(3) by (simp add: algebra_simps)
  ultimately show ?case
    by blast
qed

lemma split_on_no_sep: "c \<notin> set s \<Longrightarrow> split_on c s = [s]"
  by (induction s) auto

lemma split_on_sep:
  "c \<notin> set s \<Longrightarrow> split_on c (s @ c # t) = s # split_on c t"
  by (induction s) auto

lemma split_on_nonempty: "split_on c s \<noteq> []"
  by (induction s) (auto split: list.splits)

lemma split_on_fields: "f \<in> set (split_on c s) \<Longrightarrow> c \<notin> set f"
proof (induction s arbitrary: f)
  case Nil
  then show ?case by simp
next
  case (Cons x xs)
  show ?case
  proof (cases "x = c")
    case True
    with Cons show ?thesis by auto
  next
    case False
    obtain y ys where y: "split_on c xs = y # ys"
      using split_on_nonempty [of c xs] by (cases "split_on c xs") auto
    with False Cons.prems have "f = x # y \<or> f \<in> set ys"
      by simp
    with False y Cons.IH show ?thesis
      by auto
  qed
qed

lemma split_on_join_on:
  "fs \<noteq> [] \<Longrightarrow> \<forall>f \<in> set fs. c \<notin> set f \<Longrightarrow> split_on c (join_on c fs) = fs"
proof (induction c fs rule: join_on.induct)
  case (1 c)
  then show ?case by simp
next
  case (2 c s)
  then show ?case by (simp add: split_on_no_sep)
next
  case (3 c s t ss)
  then show ?case by (simp add: split_on_sep)
qed

lemma all_digits_no_sep:
  "all_digits s \<Longrightarrow> CHR ''-'' \<notin> set s \<and> CHR ''.'' \<notin> set s \<and> CHR '','' \<notin> set s \<and>
     CHR ''/'' \<notin> set s \<and> CHR '':'' \<notin> set s"
  using digit_val_not_sep by (auto simp: all_digits_def)


lemma head_digit_not_minus: "all_digits s \<Longrightarrow> s = c # t \<Longrightarrow> c \<noteq> CHR ''-''"
  using digit_val_not_sep by (auto simp: all_digits_simps)

lemma parse_int_show_int: "parse_int (show_int i) = Some i"
proof (cases "i < 0")
  case True
  then show ?thesis
    by (simp add: parse_int_def show_int_def parse_nat_show_nat)
next
  case False
  obtain c t where ct: "show_nat (nat i) = c # t"
    using show_nat_nonempty [of "nat i"] by (cases "show_nat (nat i)") auto
  with show_nat_digits [of "nat i"] have "c \<noteq> CHR ''-''"
    by (rule head_digit_not_minus)
  with False ct parse_nat_show_nat [of "nat i"] show ?thesis
    by (simp add: parse_int_def show_int_def)
qed

lemma show_int_nonempty: "show_int i \<noteq> []"
  by (simp add: show_int_def show_nat_nonempty)

lemma show_int_no_comma: "CHR '','' \<notin> set (show_int i)"
  using all_digits_no_sep [OF show_nat_digits] by (simp add: show_int_def)

lemma parse_unsigned_show_unsigned: "parse_unsigned (show_unsigned n k) = Some (n, k)"
proof (cases "k = 0")
  case True
  have "split_on (CHR ''.'') (show_nat n) = [show_nat n]"
    using all_digits_no_sep [OF show_nat_digits] by (simp add: split_on_no_sep)
  with True show ?thesis
    by (simp add: parse_unsigned_def show_unsigned_def parse_nat_show_nat)
next
  case False
  define ds where "ds = zfill (k + 1) (show_nat n)"
  define ip where "ip = take (length ds - k) ds"
  define fp where "fp = drop (length ds - k) ds"
  have len: "k + 1 \<le> length ds"
    by (simp add: ds_def zfill_def)
  have dsd: "all_digits ds"
    unfolding ds_def by (rule zfill_digits)
  have dg: "all_digits ip" "all_digits fp"
    using all_digits_take_drop [OF dsd] by (simp_all add: ip_def fp_def)
  have lf: "length fp = k"
    using len by (simp add: fp_def)
  have ipn: "ip \<noteq> []"
    using len by (auto simp: ip_def)
  from False lf have fpn: "fp \<noteq> []"
    by auto
  have app: "ip @ fp = ds"
    by (simp add: ip_def fp_def)
  from nat_of_digits_acc [OF dg(1)] obtain a where
    a: "nat_of_digits ip 0 = Some a"
    by blast
  from nat_of_digits_acc [OF dg(2)] obtain b where
    b: "nat_of_digits fp 0 = Some b" "\<forall>acc. nat_of_digits fp acc = Some (acc * 10 ^ length fp + b)"
    by blast
  have "nat_of_digits (ip @ fp) 0 = Some (a * 10 ^ k + b)"
    using a b(2) lf by (simp add: nat_of_digits_append)
  moreover have "nat_of_digits ds 0 = Some n"
    by (simp add: ds_def zfill_def nat_of_digits_zeros nat_of_digits_show_nat)
  ultimately have val: "a * 10 ^ k + b = n"
    by (simp add: app)
  have sp: "split_on (CHR ''.'') (ip @ CHR ''.'' # fp) = [ip, fp]"
    using all_digits_no_sep [OF dg(1)] all_digits_no_sep [OF dg(2)]
    by (simp add: split_on_sep split_on_no_sep)
  have "parse_unsigned (ip @ CHR ''.'' # fp) = Some (n, k)"
    unfolding parse_unsigned_def sp using a b(1) ipn fpn lf val
    by (simp add: parse_nat_def)
  moreover from False have "show_unsigned n k = ip @ CHR ''.'' # fp"
    by (simp add: show_unsigned_def Let_def ip_def fp_def ds_def)
  ultimately show ?thesis
    by simp
qed

lemma show_unsigned_head:
  "\<exists>c t. show_unsigned n k = c # t \<and> c \<noteq> CHR ''-''"
proof (cases "k = 0")
  case True
  obtain c t where ct: "show_nat n = c # t"
    using show_nat_nonempty [of n] by (cases "show_nat n") auto
  with show_nat_digits [of n] have "c \<noteq> CHR ''-''"
    by (rule head_digit_not_minus)
  with True ct show ?thesis
    by (simp add: show_unsigned_def)
next
  case False
  let ?ds = "zfill (k + 1) (show_nat n)"
  let ?ip = "take (length ?ds - k) ?ds"
  have len: "k + 1 \<le> length ?ds"
    by (simp add: zfill_def)
  then have "?ip \<noteq> []"
    by (simp add: zfill_nonempty)
  then obtain c t where ct: "?ip = c # t"
    by (cases ?ip) auto
  have "all_digits ?ip"
    using all_digits_take_drop [OF zfill_digits] by blast
  from this ct have "c \<noteq> CHR ''-''"
    by (rule head_digit_not_minus)
  with False ct show ?thesis
    by (simp add: show_unsigned_def Let_def)
qed

lemma show_unsigned_no_comma: "CHR '','' \<notin> set (show_unsigned n k)"
proof (cases "k = 0")
  case True
  with all_digits_no_sep [OF show_nat_digits, of n] show ?thesis
    by (simp add: show_unsigned_def)
next
  case False
  let ?ds = "zfill (k + 1) (show_nat n)"
  from all_digits_no_sep [OF zfill_digits, of "k + 1" n] have "CHR '','' \<notin> set ?ds"
    by simp
  then have "CHR '','' \<notin> set (take (length ?ds - k) ?ds)"
      "CHR '','' \<notin> set (drop (length ?ds - k) ?ds)"
    by (auto dest: in_set_takeD in_set_dropD)
  with False show ?thesis
    by (simp add: show_unsigned_def Let_def)
qed

lemma parse_number_show_number: "parse_number (show_number x) = Some x"
proof (cases x)
  case (Number m k)
  show ?thesis
  proof (cases "m < 0")
    case True
    with Number show ?thesis
      by (simp add: parse_number_def show_number_def parse_unsigned_show_unsigned)
  next
    case False
    obtain c t where ct: "show_unsigned (nat m) k = c # t" "c \<noteq> CHR ''-''"
      using show_unsigned_head by blast
    with False Number parse_unsigned_show_unsigned [of "nat m" k] show ?thesis
      by (simp add: parse_number_def show_number_def)
  qed
qed

lemma show_number_nonempty: "show_number x \<noteq> []"
  using show_unsigned_head [of "nat (mantissa x)" "scale x"]
  by (auto simp: show_number_def)

lemma show_number_no_comma: "CHR '','' \<notin> set (show_number x)"
  by (simp add: show_number_def show_unsigned_no_comma)

lemma parse_bool_show_bool: "parse_bool (show_bool b) = Some b"
  by (simp add: parse_bool_def show_bool_def)

lemma show_bool_nonempty: "show_bool b \<noteq> []"
  by (simp add: show_bool_def)

lemma show_bool_no_comma: "CHR '','' \<notin> set (show_bool b)"
  by (simp add: show_bool_def)

lemma parse_date_show_date:
  assumes "parse_date s = Some dt"
  shows "parse_date (show_date dt) = Some dt"
proof -
  obtain y m d where dt: "dt = (y, m, d)"
    by (cases dt)
  from assms dt have r: "1 \<le> m" "m \<le> 12" "1 \<le> d" "d \<le> 31"
    by (auto simp: parse_date_def split: list.splits option.splits if_splits)
  have sp: "split_on (CHR ''/'') (show_date dt) =
      [zfill 4 (show_nat y), zfill 2 (show_nat m), zfill 2 (show_nat d)]"
    using all_digits_no_sep [OF zfill_digits, of 4 y] all_digits_no_sep [OF zfill_digits, of 2 m]
      all_digits_no_sep [OF zfill_digits, of 2 d]
    by (simp add: show_date_def dt split_on_sep split_on_no_sep)
  show ?thesis
    unfolding parse_date_def sp using r by (simp add: parse_nat_zfill dt)
qed

lemma show_date_no_comma: "CHR '','' \<notin> set (show_date dt)"
proof -
  obtain y m d where dt: "dt = (y, m, d)"
    by (cases dt)
  show ?thesis
    using all_digits_no_sep [OF zfill_digits, of 4 y] all_digits_no_sep [OF zfill_digits, of 2 m]
      all_digits_no_sep [OF zfill_digits, of 2 d]
    by (simp add: show_date_def dt)
qed

lemma show_nat_length: "0 < k \<Longrightarrow> n < 10 ^ k \<Longrightarrow> length (show_nat n) \<le> k"
proof (induction n arbitrary: k rule: show_nat.induct)
  case (1 n)
  show ?case
  proof (cases "n < 10")
    case True
    with "1.prems" show ?thesis
      by (simp add: show_nat.simps [of n])
  next
    case False
    from "1.prems" obtain j where k: "k = Suc j"
      by (cases k) auto
    with False "1.prems" have j: "0 < j"
      by (cases j) auto
    from "1.prems" k have "n div 10 < 10 ^ j"
      by (simp add: less_mult_imp_div_less mult.commute)
    from "1.IH" [OF False j this] False k show ?thesis
      by (simp add: show_nat.simps [of n])
  qed
qed

lemma parse_seconds_less:
  assumes "parse_seconds s = Some (a, us)"
  shows "us < 10 ^ 6"
proof -
  from assms consider "us = 0" |
    frac where "length frac \<le> 6" "parse_nat (frac @ replicate (6 - length frac) (CHR ''0'')) = Some us"
    by (auto simp: parse_seconds_def split: list.splits option.splits if_splits)
  then show ?thesis
  proof cases
    case 1
    then show ?thesis by simp
  next
    case 2
    define ds where "ds = frac @ replicate (6 - length frac) (CHR ''0'')"
    from 2 have l: "length ds = 6"
      by (simp add: ds_def)
    from 2 have p: "nat_of_digits ds 0 = Some us"
      by (simp add: parse_nat_def ds_def split: if_splits)
    have "all_digits ds"
    proof -
      have "nat_of_digits t acc = Some v \<Longrightarrow> all_digits t" for t acc v
        by (induction t arbitrary: acc) (auto simp: all_digits_simps split: option.splits)
      with p show ?thesis by blast
    qed
    from nat_of_digits_acc [OF this] p l show ?thesis
      by auto
  qed
qed

lemma parse_seconds_show:
  assumes "us < 10 ^ 6"
  shows "parse_seconds (zfill 2 (show_nat sec) @ CHR ''.'' # zfill 6 (show_nat us)) = Some (sec, us)"
proof -
  define ip where "ip = zfill 2 (show_nat sec)"
  define fp where "fp = zfill 6 (show_nat us)"
  from assms have "length (show_nat us) \<le> 6"
    by (intro show_nat_length) simp_all
  then have lf: "length fp = 6"
    by (simp add: fp_def zfill_def)
  then have fpn: "fp \<noteq> []"
    by auto
  have sp: "split_on (CHR ''.'') (ip @ CHR ''.'' # fp) = [ip, fp]"
    using all_digits_no_sep [OF zfill_digits, of 2 sec] all_digits_no_sep [OF zfill_digits, of 6 us]
    by (simp add: split_on_sep split_on_no_sep ip_def fp_def)
  have "parse_seconds (ip @ CHR ''.'' # fp) = Some (sec, us)"
    unfolding parse_seconds_def sp using lf fpn
    by (simp add: ip_def fp_def parse_nat_zfill)
  then show ?thesis
    by (simp add: ip_def fp_def)
qed

lemma parse_time_show_time:
  assumes "parse_time s = Some t"
  shows "parse_time (show_time t) = Some t"
proof -
  obtain h m sec us where t: "t = (h, m, sec, us)"
    by (cases t)
  from assms t obtain sf where r: "h < 24" "m < 60" "sec < 60" and ps: "parse_seconds sf = Some (sec, us)"
    by (auto simp: parse_time_def split: list.splits option.splits if_splits)
  from ps have us: "us < 10 ^ 6"
    by (rule parse_seconds_less)
  define sf' where "sf' = zfill 2 (show_nat sec) @ CHR ''.'' # zfill 6 (show_nat us)"
  have c: "CHR '':'' \<notin> set sf'"
    using all_digits_no_sep [OF zfill_digits, of 2 sec] all_digits_no_sep [OF zfill_digits, of 6 us]
    by (simp add: sf'_def)
  have sp: "split_on (CHR '':'') (show_time t) =
      [zfill 2 (show_nat h), zfill 2 (show_nat m), sf']"
    using all_digits_no_sep [OF zfill_digits, of 2 h] all_digits_no_sep [OF zfill_digits, of 2 m] c
    by (simp add: show_time_def t split_on_sep split_on_no_sep sf'_def [symmetric])
  have "parse_seconds sf' = Some (sec, us)"
    unfolding sf'_def using us by (rule parse_seconds_show)
  then show ?thesis
    unfolding parse_time_def sp using r by (simp add: parse_nat_zfill t)
qed

lemma show_time_no_comma: "CHR '','' \<notin> set (show_time t)"
proof -
  obtain h m sec us where t: "t = (h, m, sec, us)"
    by (cases t)
  show ?thesis
    using all_digits_no_sep [OF zfill_digits, of 2 h] all_digits_no_sep [OF zfill_digits, of 2 m]
      all_digits_no_sep [OF zfill_digits, of 2 sec] all_digits_no_sep [OF zfill_digits, of 6 us]
    by (simp add: show_time_def t)
qed

lemma dropWhile_last: "dropWhile P xs \<noteq> [] \<Longrightarrow> last (dropWhile P xs) = last xs"
  by (induction xs) (auto split: if_splits)

lemma strip_idem: "strip (strip s) = strip s"
proof -
  define sp where "sp = (\<lambda>c. c = CHR '' '')"
  define u where "u = dropWhile sp s"
  define v where "v = dropWhile sp (rev u)"
  have s: "strip s = rev v"
    by (simp add: strip_def sp_def u_def v_def)
  have "dropWhile sp (rev v) = rev v"
  proof (cases "v = []")
    case True
    then show ?thesis by simp
  next
    case False
    then have "hd (rev v) = last v"
      by (simp add: hd_rev)
    also from False have "\<dots> = last (rev u)"
      unfolding v_def by (rule dropWhile_last)
    also have "\<dots> = hd u"
    proof -
      from False have "u \<noteq> []"
        by (auto simp: v_def)
      then show ?thesis by (simp add: last_rev)
    qed
    finally have "hd (rev v) = hd u" .
    moreover from False have "u \<noteq> []"
      by (auto simp: v_def)
    then have "\<not> sp (hd u)"
      unfolding u_def by (rule hd_dropWhile)
    ultimately show ?thesis
      using False by (simp add: dropWhile_eq_self_iff)
  qed
  moreover have "dropWhile sp v = v"
  proof (cases "v = []")
    case True
    then show ?thesis by simp
  next
    case False
    then have "\<not> sp (hd v)"
      unfolding v_def by (rule hd_dropWhile)
    with False show ?thesis
      by (simp add: dropWhile_eq_self_iff)
  qed
  ultimately have "strip (rev v) = rev v"
    by (simp add: strip_def sp_def [symmetric])
  with s show ?thesis
    by simp
qed

lemma strip_subset: "set (strip s) \<subseteq> set s"
proof -
  have "set (dropWhile P xs) \<subseteq> set xs" for P and xs :: string
    by (rule set_dropWhileD [THEN subsetI])
  then show ?thesis
    unfolding strip_def by (metis set_rev subset_trans)
qed

lemma join_on_snoc: "fs \<noteq> [] \<Longrightarrow> join_on c (fs @ [f]) = join_on c fs @ c # f"
  by (induction c fs rule: join_on.induct) auto

lemma rstrip_delimiter_id:
  assumes "line \<noteq> []" and "last line \<noteq> CHR 0x0A"
  shows "rstrip_delimiter line = line"
proof -
  have "drop (length line - length DELIMITER) line \<noteq> DELIMITER"
  proof
    assume d: "drop (length line - length DELIMITER) line = DELIMITER"
    from assms(1) have "last line = last (drop (length line - length DELIMITER) line)"
      by (simp add: last_drop DELIMITER_def)
    with d assms(2) show False
      by (simp add: DELIMITER_def)
  qed
  then show ?thesis
    by (simp add: rstrip_delimiter_def)
qed

lemma message_type_of_type_code: "message_type_of (type_code t) = Some t"
  by (cases t) (simp_all add: message_type_of_def)

lemma type_code_no_comma: "CHR '','' \<notin> set (type_code t)"
  by (cases t) simp_all

lemma optional_show_optional:
  assumes "optional conv s = Some v" and "\<And>x. conv (to_text x) = Some x" and "\<And>x. to_text x \<noteq> []"
  shows "optional conv (show_optional to_text v) = Some v"
  using assms(2,3) by (cases v) (simp_all add: optional_def show_optional_def)

lemma show_optional_no_comma:
  assumes "\<And>x. CHR '','' \<notin> set (to_text x)"
  shows "CHR '','' \<notin> set (show_optional to_text v)"
  using assms by (cases v) (simp_all add: show_optional_def)

lemma optional_string:
  assumes "optional Some s = Some v"
  shows "show_optional (\<lambda>s. s) v = s"
  using assms by (auto simp: optional_def show_optional_def split: if_splits)

lemma parse_fields_shape:
  assumes "parse_fields fs = Some m"
  shows "\<exists>c0 c1 c2 c3 c4 c5 c6 c7 c8 c9 c10 c11 c12 c13 c14 c15 c16 c17 c18 c19 c20 c21.
    fs = [c0, c1, c2, c3, c4, c5, c6, c7, c8, c9, c10, c11, c12, c13, c14, c15, c16, c17,
         c18, c19, c20, c21]"
  using assms by (simp add: parse_fields_def split: list.splits)


lemma parse_fields_roundtrip:
  assumes "parse_fields fs = Some m" and "\<forall>f \<in> set fs. CHR '','' \<notin> set f"
  shows "parse_fields (message_fields m) = Some m \<and>
         (\<forall>f \<in> set (message_fields m). CHR '','' \<notin> set f)"
proof -
  from parse_fields_shape [OF assms(1)] obtain c0 c1 c2 c3 c4 c5 c6 c7 c8 c9 c10 c11 c12 c13
      c14 c15 c16 c17 c18 c19 c20 c21 where
    fs: "fs = [c0, c1, c2, c3, c4, c5, c6, c7, c8, c9, c10, c11, c12, c13, c14, c15, c16, c17,
         c18, c19, c20, c21]"
    by (elim exE) (rule that)
  from assms(1) obtain v0 v1 v2 v3 v5 v6 v7 v8 v9 v10 v11 v12 v13 v14 v15 v16 v17 v18 v19 v20 v21
    where
      p0: "message_type_of c0 = Some v0" and
      p1: "(if v0 = Transmission then map_option Some (parse_int c1)
            else optional parse_int c1) = Some v1" and
      p2: "parse_int c2 = Some v2" and
      p3: "parse_int c3 = Some v3" and
      p5: "parse_int c5 = Some v5" and
      p6: "parse_date c6 = Some v6" and
      p7: "parse_time c7 = Some v7" and
      p8: "parse_date c8 = Some v8" and
      p9: "parse_time c9 = Some v9" and
      p10: "optional Some (strip c10) = Some v10" and
      p11: "optional parse_number c11 = Some v11" and
      p12: "optional parse_number c12 = Some v12" and
      p13: "optional parse_number c13 = Some v13" and
      p14: "optional parse_number c14 = Some v14" and
      p15: "optional parse_number c15 = Some v15" and
      p16: "optional parse_number c16 = Some v16" and
      p17: "optional Some c17 = Some v17" and
      p18: "optional parse_bool c18 = Some v18" and
      p19: "optional parse_bool c19 = Some v19" and
      p20: "optional parse_bool c20 = Some v20" and
      p21: "optional parse_bool c21 = Some v21" and
      m: "m = \<lparr>message_type = v0, transmission_type = v1, session_id = v2,
              aircraft_id = v3, hex_ident = c4, flight_id = v5, generated_date = v6,
              generated_time = v7, logged_date = v8, logged_time = v9, callsign = v10,
              altitude = v11, ground_speed = v12, track = v13, lat = v14, lon = v15,
              vertical_rate = v16, squawk = v17, alert = v18, emergency = v19, spi = v20,
              is_on_ground = v21\<rparr>"
    unfolding fs parse_fields_def by (auto simp: bind_eq_Some_conv)
  have q1: "(if v0 = Transmission then map_option Some (parse_int (show_optional show_int v1))
            else optional parse_int (show_optional show_int v1)) = Some v1"
  proof (cases "v0 = Transmission")
    case True
    with p1 obtain i where "v1 = Some i"
      by auto
    with True show ?thesis
      by (simp add: show_optional_def parse_int_show_int)
  next
    case False
    with p1 have "optional parse_int c1 = Some v1"
      by simp
    then have "optional parse_int (show_optional show_int v1) = Some v1"
      by (rule optional_show_optional) (simp_all add: parse_int_show_int show_int_nonempty)
    with False show ?thesis
      by simp
  qed
  have q10: "optional Some (strip (show_optional (\<lambda>s. s) v10)) = Some v10"
    using p10 by (simp add: optional_string strip_idem)
  have q17: "optional Some (show_optional (\<lambda>s. s) v17) = Some v17"
    using p17 by (simp add: optional_string)
  note qn = optional_show_optional [where conv = parse_number and to_text = show_number,
      OF _ parse_number_show_number show_number_nonempty]
  note qb = optional_show_optional [where conv = parse_bool and to_text = show_bool,
      OF _ parse_bool_show_bool show_bool_nonempty]
  have "parse_fields (message_fields m) = Some m"
    unfolding message_fields_def parse_fields_def m
    by (simp add: message_type_of_type_code q1 parse_int_show_int
        parse_date_show_date [OF p6] parse_time_show_time [OF p7]
        parse_date_show_date [OF p8] parse_time_show_time [OF p9] q10 q17
        qn [OF p11] qn [OF p12] qn [OF p13] qn [OF p14] qn [OF p15] qn [OF p16]
        qb [OF p18] qb [OF p19] qb [OF p20] qb [OF p21])
  moreover have "\<forall>f \<in> set (message_fields m). CHR '','' \<notin> set f"
  proof -
    from assms(2) fs have c: "CHR '','' \<notin> set c4" "CHR '','' \<notin> set c10" "CHR '','' \<notin> set c17"
      by simp_all
    from c(2) strip_subset [of c10] have "CHR '','' \<notin> set (strip c10)"
      by blast
    with p10 have s10: "CHR '','' \<notin> set (show_optional (\<lambda>s. s) v10)"
      by (simp add: optional_string)
    from c(3) p17 have s17: "CHR '','' \<notin> set (show_optional (\<lambda>s. s) v17)"
      by (simp add: optional_string)
    show ?thesis
      unfolding message_fields_def m
      using c(1) s10 s17
      by (simp add: type_code_no_comma show_int_no_comma show_date_no_comma show_time_no_comma
          show_optional_no_comma show_number_no_comma show_bool_no_comma)
  qed
  ultimately show ?thesis
    by (rule conjI)
qed


lemma toString_no_delimiter: "rstrip_delimiter (toString m) = toString m"
proof -
  define pre where "pre =
     [type_code (message_type m), show_optional show_int (transmission_type m),
      show_int (session_id m), show_int (aircraft_id m), hex_ident m,
      show_int (flight_id m), show_date (generated_date m), show_time (generated_time m),
      show_date (logged_date m), show_time (logged_time m),
      show_optional (\<lambda>s. s) (SBSMessage.callsign m),
      show_optional show_number (SBSMessage.altitude m),
      show_optional show_number (SBSMessage.ground_speed m),
      show_optional show_number (SBSMessage.track m),
      show_optional show_number (lat m), show_optional show_number (lon m),
      show_optional show_number (SBSMessage.vertical_rate m),
      show_optional (\<lambda>s. s) (squawk m), show_optional show_bool (alert m),
      show_optional show_bool (emergency m), show_optional show_bool (spi m)]"
  define f where "f = show_optional show_bool (is_on_ground m)"
  have mf: "message_fields m = pre @ [f]"
    by (simp add: message_fields_def pre_def f_def)
  have "pre \<noteq> []"
    by (simp add: pre_def)
  then have t: "toString m = join_on (CHR '','') pre @ CHR '','' # f"
    unfolding toString_def mf by (rule join_on_snoc)
  have "f = [] \<or> f = ''1'' \<or> f = ''0''"
    by (cases "is_on_ground m") (auto simp: f_def show_optional_def show_bool_def)
  then have "last (CHR '','' # f) \<noteq> CHR 0x0A"
    by auto
  with t have "toString m \<noteq> []" "last (toString m) \<noteq> CHR 0x0A"
    by simp_all
  then show ?thesis
    by (rule rstrip_delimiter_id)
qed

text \<open>
  C1. Semantic round trip of the codec: when a line parses to a message, the text that
  \<open>toString\<close> writes for that message parses again, to the same message.
\<close>

theorem message_roundtrip:
  assumes "fromString line = Inr m"
  shows "fromString (toString m) = Inr m"
proof -
  define fs where "fs = split_on (CHR '','') (rstrip_delimiter line)"
  from assms have p: "parse_fields fs = Some m"
    by (simp add: fromString_def fs_def split: option.splits)
  have "\<forall>f \<in> set fs. CHR '','' \<notin> set f"
    unfolding fs_def using split_on_fields by blast
  with p have r: "parse_fields (message_fields m) = Some m"
      "\<forall>f \<in> set (message_fields m). CHR '','' \<notin> set f"
    using parse_fields_roundtrip by blast+
  have "message_fields m \<noteq> []"
    by (simp add: message_fields_def)
  from this r(2) have "split_on (CHR '','') (toString m) = message_fields m"
    unfolding toString_def by (rule split_on_join_on)
  with r(1) show ?thesis
    by (simp add: fromString_def toString_no_delimiter)
qed

lemma scenario_line_delimiter: "rstrip_delimiter (scenario_line @ DELIMITER) = scenario_line"
  by (simp add: scenario_line_def rstrip_delimiter_def DELIMITER_def)

lemma scenario_line_fields:
  "split_on (CHR '','') scenario_line =
     [''MSG'', ''3'', ''1'', ''1'', ''7C79B7'', ''1'', ''2017/03/25'', ''10:41:45.365'',
      ''2017/03/25'', ''10:41:45.384'', [], ''2850'', [], [], ''-34.84658'', ''138.67962'',
      [], [], [], [], [], []]"
  by (simp add: scenario_line_def)

lemma scenario_line_values:
  "parse_int ''3'' = Some 3" "parse_int ''1'' = Some 1"
  "parse_date ''2017/03/25'' = Some (2017, 3, 25)"
  "parse_time ''10:41:45.365'' = Some (10, 41, 45, 365000)"
  "parse_time ''10:41:45.384'' = Some (10, 41, 45, 384000)"
  "parse_number ''2850'' = Some (Number 2850 0)"
  "parse_number ''-34.84658'' = Some (Number (- 3484658) 5)"
  "parse_number ''138.67962'' = Some (Number 13867962 5)"
  by (simp_all add: parse_int_def parse_nat_def digit_val_def parse_date_def parse_time_def
      parse_seconds_def parse_number_def parse_unsigned_def numeral_3_eq_3)

lemma scenario_line_parses: "fromString (scenario_line @ DELIMITER) = Inr scenario_msg"
  unfolding fromString_def scenario_line_delimiter scenario_line_fields
  by (simp add: parse_fields_def message_type_of_def scenario_line_values optional_def
      strip_def scenario_msg_def)

lemma show_nat_values:
  "show_nat 0 = ''0''" "show_nat (Suc 0) = ''1''" "show_nat 3 = ''3''" "show_nat 10 = ''10''"
  "show_nat 25 = ''25''" "show_nat 41 = ''41''" "show_nat 45 = ''45''"
  "show_nat 2017 = ''2017''" "show_nat 2850 = ''2850''" "show_nat 365000 = ''365000''"
  "show_nat 384000 = ''384000''" "show_nat 3484658 = ''3484658''"
  "show_nat 13867962 = ''13867962''"
  by (simp_all add: show_nat.simps digit_char_def char_of_def bit_Suc_0_iff)

lemma scenario_msg_text:
  "toString scenario_msg =
     ''MSG,3,1,1,7C79B7,1,2017/03/25,10:41:45.365000,2017/03/25,10:41:45.384000,,2850,,,-34.84658,138.67962,,,,,,''"
  by (simp add: toString_def message_fields_def scenario_msg_def show_optional_def show_int_def
      show_date_def show_time_def show_number_def show_unsigned_def zfill_def show_nat_values
      Let_def)

theorem message_roundtrip_witness:
  "fromString (scenario_line @ DELIMITER) = Inr scenario_msg \<and>
   toString scenario_msg =
     ''MSG,3,1,1,7C79B7,1,2017/03/25,10:41:45.365000,2017/03/25,10:41:45.384000,,2850,,,-34.84658,138.67962,,,,,,'' \<and>
   fromString (toString scenario_msg) = Inr scenario_msg"
  using message_roundtrip [OF scenario_line_parses] scenario_line_parses scenario_msg_text
  by (intro conjI)

end
